theory Spec2Isabelle
  imports Main
begin

section \<open>Narrow-phase dispatch: \<open>DefaultCollisionDispatch::selectAlgorithm\<close>\<close>

text \<open>
  The two algorithm instances the dispatch owns (\<open>mSphereVsSphereAlgorithm\<close> and
  \<open>mSphereVsConvexMeshAlgorithm\<close>); a returned \<open>nullptr\<close> is \<open>None\<close>.
\<close>

datatype NarrowPhaseAlgorithm = SphereVsSphereAlgorithm | SphereVsConvexMeshAlgorithm

text \<open>
  \<open>selectAlgorithm(int type1, int type2)\<close>. The enumeration \<open>CollisionShapeType\<close> and
  \<open>CollisionShape::isConvex\<close> are declared in headers that are not part of the sources, so
  the ordinal of \<open>CollisionShapeType::SPHERE\<close> and the predicate \<open>isConvex\<close> (on ordinals) are
  parameters. The two \<open>static_cast\<close>s keep the integer value, so a comparison of a cast
  value with \<open>SPHERE\<close> is a comparison of the integer with the ordinal. The integers are only
  compared, never added, so they are modelled as \<open>int\<close>.
\<close>

definition selectAlgorithm ::
  "int \<Rightarrow> (int \<Rightarrow> bool) \<Rightarrow> int \<Rightarrow> int \<Rightarrow> NarrowPhaseAlgorithm option" where
  "selectAlgorithm SPHERE isConvex type1 type2 =
     (let shape1Type = type1; shape2Type = type2 in
      if type1 > type2 then None
      else if shape1Type = SPHERE \<and> shape2Type = SPHERE then Some SphereVsSphereAlgorithm
      else if shape1Type = SPHERE \<and> isConvex shape2Type then Some SphereVsConvexMeshAlgorithm
      else None)"


section \<open>Heap allocator: data\<close>

type_synonym addr = nat

text \<open>
  The faults of the allocator. \<open>InvalidArgument\<close>, \<open>OutOfMemory\<close> and
  \<open>InvariantViolation\<close> are the three kinds of the specification's error taxonomy (a failed
  assertion aborts; the abort is the error value). \<open>InvalidAccess\<close> stands for a
  dereference of a pointer that is not the address of a live unit header, which C++ leaves
  undefined.
\<close>

datatype error = InvalidArgument | OutOfMemory | InvariantViolation | InvalidAccess

text \<open>
  \<open>struct MemoryUnitHeader\<close>. A header pointer is the address of the header, \<open>nullptr\<close> is
  \<open>None\<close>. \<open>size_t\<close> values are natural numbers (no request comes near the 64-bit
  bound). The field \<open>size\<close> is named \<open>size_unit\<close>, since \<open>size\<close> is a constant of HOL.
\<close>

record MemoryUnitHeader =
  previousUnit :: "addr option"
  nextUnit :: "addr option"
  previousFreeUnit :: "addr option"
  nextFreeUnit :: "addr option"
  size_unit :: nat
  isNextContiguousMemory :: bool
  isAllocated :: bool

text \<open>
  The constructor initialises six fields from its arguments, leaves \<open>isAllocated\<close> at its
  default member initialiser \<open>false\<close>, and then runs \<open>assert(size > 0)\<close>. The flag
  \<open>debug\<close> says whether assertions are compiled in (\<open>NDEBUG\<close> not defined); a failed
  assertion aborts, which is the error \<open>InvariantViolation\<close>.
\<close>

definition MemoryUnitHeader_ctor ::
  "bool \<Rightarrow> nat \<Rightarrow> addr option \<Rightarrow> addr option \<Rightarrow> addr option \<Rightarrow> addr option \<Rightarrow> bool
   \<Rightarrow> error + MemoryUnitHeader" where
  "MemoryUnitHeader_ctor debug sz prevU nextU prevF nextF contig =
     (if debug \<and> \<not> sz > 0 then Inl InvariantViolation
      else Inr \<lparr> previousUnit = prevU, nextUnit = nextU,
                 previousFreeUnit = prevF, nextFreeUnit = nextF,
                 size_unit = sz, isNextContiguousMemory = contig, isAllocated = False \<rparr>)"

text \<open>
  Modelled from the spec: the constants of the platform, none of which is defined in the
  sources. \<open>headerSize\<close> is \<open>sizeof(MemoryUnitHeader)\<close>, the fixed header-to-payload
  offset; \<open>alignment\<close> is the platform's default alignment requirement;
  \<open>INIT_ALLOCATED_SIZE\<close> is the static member of that name, the growth increment of
  \<open>reserve\<close>. Every operation takes them as a parameter.
\<close>

record Platform =
  headerSize :: nat
  alignment :: nat
  INIT_ALLOCATED_SIZE :: nat

text \<open>
  \<open>class HeapAllocator\<close>, debug build. The fields are those of the class declaration.
  \<open>memory\<close> is the memory that holds the unit headers: it maps the address of every live
  header to the header (the intrusive lists of the class live in it). The mutex is left out:
  every call runs under the lock, so the calls are sequential. The Base Allocator is
  represented by its answer, see \<open>reserve\<close>. The debug totals \<open>mTotalHeaderSize\<close>,
  \<open>mUsedMemorySize\<close>, \<open>mRemainingMemorySize\<close> and \<open>mBlockCnt\<close> are left out, since neither
  the sources nor the specification say how they are updated; what they stand for is
  computed from the lists instead (\<open>totalFreeBytes\<close>, \<open>headerOverhead\<close>).
\<close>

record HeapAllocator =
  mAllocatedMemory :: nat
  mMemoryUnits :: "addr option"
  mFreeUnits :: "addr option"
  mNbTimesAllocateMethodCalled :: int
  memory :: "addr \<Rightarrow> MemoryUnitHeader option"


section \<open>Heap allocator: operations\<close>

text \<open>
  The bodies of the member functions are in \<open>HeapAllocator.cpp\<close>, which is not part of the
  sources; only the class declaration with its documentation comments is. Each operation
  below is therefore written from the specification (section 4.2) and the comment of its
  declaration. A result is \<open>Inr\<close> of the new state or \<open>Inl\<close> of the fault; an operation
  that runs a loop returns an \<open>option\<close> of that, \<open>None\<close> being a loop that does not end.
\<close>

definition bindE :: "error + 'a \<Rightarrow> ('a \<Rightarrow> error + 'b) \<Rightarrow> error + 'b" where
  "bindE m f = (case m of Inl e \<Rightarrow> Inl e | Inr x \<Rightarrow> f x)"

text \<open>The assignment \<open>p->field = v\<close> through a header pointer \<open>p\<close>.\<close>

definition modifyUnit ::
  "HeapAllocator \<Rightarrow> addr \<Rightarrow> (MemoryUnitHeader \<Rightarrow> MemoryUnitHeader) \<Rightarrow> error + HeapAllocator" where
  "modifyUnit st p f =
     (case memory st p of
        None \<Rightarrow> Inl InvalidAccess
      | Some u \<Rightarrow> Inr (st\<lparr>memory := (memory st)(p \<mapsto> f u)\<rparr>))"

text \<open>The guarded assignment \<open>if (p != nullptr) p->field = v\<close>.\<close>

definition modifyUnitOpt ::
  "HeapAllocator \<Rightarrow> addr option \<Rightarrow> (MemoryUnitHeader \<Rightarrow> MemoryUnitHeader) \<Rightarrow> error + HeapAllocator" where
  "modifyUnitOpt st p f = (case p of None \<Rightarrow> Inr st | Some q \<Rightarrow> modifyUnit st q f)"

text \<open>
  Modelled from the spec: \<open>computeAlignedAddress\<close> (declared, body missing), "the next
  aligned memory address": the address rounded up to a multiple of the alignment.
\<close>

definition computeAlignedAddress :: "Platform \<Rightarrow> addr \<Rightarrow> addr" where
  "computeAlignedAddress pf a = ((a + alignment pf - 1) div alignment pf) * alignment pf"

text \<open>
  Modelled from the spec: the alignment padding of the unit at \<open>a\<close>, the distance from its
  would-be return address \<open>a + headerSize\<close> to the aligned address (part of the missing
  body of \<open>allocate\<close>).
\<close>

definition alignmentPadding :: "Platform \<Rightarrow> addr \<Rightarrow> nat" where
  "alignmentPadding pf a =
     computeAlignedAddress pf (a + headerSize pf) - (a + headerSize pf)"

text \<open>
  Modelled from the spec: the test of the search of \<open>allocate\<close> (body missing), "payload
  size, after aligning the would-be return address, is at least the requested size".
\<close>

definition fits :: "Platform \<Rightarrow> nat \<Rightarrow> addr \<Rightarrow> MemoryUnitHeader \<Rightarrow> bool" where
  "fits pf s a u \<longleftrightarrow>
     alignmentPadding pf a \<le> size_unit u \<and> size_unit u - alignmentPadding pf a \<ge> s"

text \<open>
  Modelled from the spec: \<open>addToFreeUnits\<close> (declared, body missing). The class has a
  pointer to the first free unit only, and the specification leaves the place of insertion
  open; the unit is linked in at the head. The flag \<open>isAllocated\<close> is not touched: the
  specification has \<open>release\<close> mark the unit free and insert it as two steps.
\<close>

definition addToFreeUnits :: "HeapAllocator \<Rightarrow> addr \<Rightarrow> error + HeapAllocator" where
  "addToFreeUnits st a =
     bindE (modifyUnit st a (\<lambda>u. u\<lparr>previousFreeUnit := None, nextFreeUnit := mFreeUnits st\<rparr>))
       (\<lambda>st1.
     bindE (modifyUnitOpt st1 (mFreeUnits st) (\<lambda>v. v\<lparr>previousFreeUnit := Some a\<rparr>))
       (\<lambda>st2.
     Inr (st2\<lparr>mFreeUnits := Some a\<rparr>)))"

text \<open>
  Modelled from the spec: \<open>removeFromFreeUnits\<close> (declared, body missing): the neighbours
  in the Free List are linked to each other, the head pointer moves on when the unit was
  the head, and the links of the removed unit are cleared. The flag \<open>isAllocated\<close> is not
  touched: \<open>allocate\<close> marks the unit as its own step.
\<close>

definition removeFromFreeUnits :: "HeapAllocator \<Rightarrow> addr \<Rightarrow> error + HeapAllocator" where
  "removeFromFreeUnits st a =
     (case memory st a of
        None \<Rightarrow> Inl InvalidAccess
      | Some u \<Rightarrow>
          bindE (modifyUnitOpt st (previousFreeUnit u) (\<lambda>v. v\<lparr>nextFreeUnit := nextFreeUnit u\<rparr>))
            (\<lambda>st1.
          bindE (modifyUnitOpt st1 (nextFreeUnit u) (\<lambda>v. v\<lparr>previousFreeUnit := previousFreeUnit u\<rparr>))
            (\<lambda>st2.
          bindE (modifyUnit st2 a (\<lambda>v. v\<lparr>previousFreeUnit := None, nextFreeUnit := None\<rparr>))
            (\<lambda>st3.
          Inr (if mFreeUnits st3 = Some a then st3\<lparr>mFreeUnits := nextFreeUnit u\<rparr> else st3)))))"

text \<open>
  Modelled from the spec: \<open>splitMemoryUnit\<close> (declared, body missing), "split a memory
  unit in two units, one of size \<open>size\<close> and the second with left over space; the second
  unit is put into the free memory units". The new header is constructed in the left over
  space, right behind the first \<open>size\<close> bytes of the payload, and linked in behind the unit
  in the Unit List; it inherits the contiguity flag of the unit, and the unit is contiguous
  with it. The constructor's assertion fails when nothing is left over for the payload of
  the second unit (the subtraction is on natural numbers).
\<close>

definition splitMemoryUnit :: "Platform \<Rightarrow> HeapAllocator \<Rightarrow> addr \<Rightarrow> nat \<Rightarrow> error + HeapAllocator" where
  "splitMemoryUnit pf st a s =
     (case memory st a of
        None \<Rightarrow> Inl InvalidAccess
      | Some u \<Rightarrow>
          let newUnit = a + headerSize pf + s in
          bindE (MemoryUnitHeader_ctor True (size_unit u - s - headerSize pf)
                   (Some a) (nextUnit u) None None (isNextContiguousMemory u))
            (\<lambda>n.
          bindE (modifyUnit (st\<lparr>memory := (memory st)(newUnit \<mapsto> n)\<rparr>) a
                   (\<lambda>v. v\<lparr>size_unit := s, nextUnit := Some newUnit, isNextContiguousMemory := True\<rparr>))
            (\<lambda>st1.
          bindE (modifyUnitOpt st1 (nextUnit u) (\<lambda>v. v\<lparr>previousUnit := Some newUnit\<rparr>))
            (\<lambda>st2.
          addToFreeUnits st2 newUnit))))"

text \<open>
  Modelled from the spec: \<open>mergeUnits\<close> (declared, body missing). The preconditions (both
  units free, the second the successor of the first, the first contiguous with its
  successor) are asserted. The first unit grows by the header and the payload of the second
  and takes over its successor and its contiguity flag; the successor's back link is set;
  the second unit leaves the Free List, and its header is no longer a unit.
\<close>

definition mergeUnits :: "Platform \<Rightarrow> HeapAllocator \<Rightarrow> addr \<Rightarrow> addr \<Rightarrow> error + HeapAllocator" where
  "mergeUnits pf st a b =
     (case (memory st a, memory st b) of
        (Some u1, Some u2) \<Rightarrow>
          if isAllocated u1 \<or> isAllocated u2 \<or> nextUnit u1 \<noteq> Some b \<or> \<not> isNextContiguousMemory u1
          then Inl InvariantViolation
          else
            bindE (modifyUnit st a
                     (\<lambda>v. v\<lparr>size_unit := size_unit u1 + (headerSize pf + size_unit u2),
                             nextUnit := nextUnit u2,
                             isNextContiguousMemory := isNextContiguousMemory u2\<rparr>))
              (\<lambda>st1.
            bindE (modifyUnitOpt st1 (nextUnit u2) (\<lambda>v. v\<lparr>previousUnit := Some a\<rparr>))
              (\<lambda>st2.
            bindE (removeFromFreeUnits st2 b)
              (\<lambda>st3.
            Inr (st3\<lparr>memory := (memory st3)(b := None)\<rparr>))))
      | _ \<Rightarrow> Inl InvalidAccess)"

text \<open>
  Modelled from the spec: the walk of \<open>reserve\<close> (body missing) to the end of the Unit
  List, where the new unit is appended; the class has a pointer to the first unit only.
\<close>

partial_function (option) lastUnit ::
  "(addr \<Rightarrow> MemoryUnitHeader option) \<Rightarrow> addr \<Rightarrow> (error + addr) option" where
  "lastUnit m a =
     (case m a of
        None \<Rightarrow> Some (Inl InvalidAccess)
      | Some u \<Rightarrow> (case nextUnit u of None \<Rightarrow> Some (Inr a) | Some n \<Rightarrow> lastUnit m n))"

text \<open>
  Modelled from the spec: \<open>reserve\<close> (declared, body missing). \<open>blk\<close> is the answer of
  the Base Allocator to the request of this call: the address of the new block, or \<open>None\<close>
  when it is out of memory. The block holds one header and a payload of
  \<open>max(sizeToAllocate, INIT_ALLOCATED_SIZE)\<close> bytes, and \<open>mAllocatedMemory\<close> grows by the
  size of the block. The new block becomes one free unit at the end of the Unit List, and the
  contiguity flag of the previous last unit is set to false.
\<close>

definition reserve ::
  "Platform \<Rightarrow> addr option \<Rightarrow> HeapAllocator \<Rightarrow> nat \<Rightarrow> (error + HeapAllocator) option" where
  "reserve pf blk st sizeToAllocate =
     (let payload = max sizeToAllocate (INIT_ALLOCATED_SIZE pf) in
      case blk of
        None \<Rightarrow> Some (Inl OutOfMemory)
      | Some b \<Rightarrow>
          (case (case mMemoryUnits st of None \<Rightarrow> Some (Inr None)
                 | Some f \<Rightarrow> map_option (map_sum id Some) (lastUnit (memory st) f)) of
             None \<Rightarrow> None
           | Some (Inl e) \<Rightarrow> Some (Inl e)
           | Some (Inr tailUnit) \<Rightarrow> Some (
               bindE (MemoryUnitHeader_ctor True payload tailUnit None None None False)
                 (\<lambda>n.
               bindE (modifyUnitOpt (st\<lparr>memory := (memory st)(b \<mapsto> n)\<rparr>) tailUnit
                        (\<lambda>v. v\<lparr>nextUnit := Some b, isNextContiguousMemory := False\<rparr>))
                 (\<lambda>st1.
               bindE (addToFreeUnits
                        (if tailUnit = None then st1\<lparr>mMemoryUnits := Some b\<rparr> else st1) b)
                 (\<lambda>st2.
               Inr (st2\<lparr>mAllocatedMemory := mAllocatedMemory st2 + (payload + headerSize pf)\<rparr>)))))))"

text \<open>
  Modelled from the spec: the search loop of \<open>allocate\<close> (body missing): from the given
  free unit on, along \<open>nextFreeUnit\<close>, to the first unit that passes the test \<open>fit\<close>.
\<close>

partial_function (option) findFirstFit ::
  "(addr \<Rightarrow> MemoryUnitHeader \<Rightarrow> bool) \<Rightarrow> (addr \<Rightarrow> MemoryUnitHeader option) \<Rightarrow> addr option
   \<Rightarrow> (error + addr option) option" where
  "findFirstFit fit m cur =
     (case cur of
        None \<Rightarrow> Some (Inr None)
      | Some a \<Rightarrow>
          (case m a of
             None \<Rightarrow> Some (Inl InvalidAccess)
           | Some u \<Rightarrow> if fit a u then Some (Inr (Some a))
                       else findFirstFit fit m (nextFreeUnit u)))"

text \<open>
  Modelled from the spec: the part of \<open>allocate\<close> (body missing) that follows the search,
  on the chosen unit. The unit is claimed for the request and its alignment padding; when
  more than one header's worth of bytes is left over, the unit is split at the claimed
  size. Then the unit leaves the Free List and is marked allocated, the call counter is
  incremented, and the aligned address in the payload is returned.
\<close>

definition allocateUnit ::
  "Platform \<Rightarrow> HeapAllocator \<Rightarrow> addr \<Rightarrow> nat \<Rightarrow> error + (addr \<times> HeapAllocator)" where
  "allocateUnit pf st a s =
     (case memory st a of
        None \<Rightarrow> Inl InvalidAccess
      | Some u \<Rightarrow>
          let claimed = s + alignmentPadding pf a in
          bindE (if size_unit u - claimed > headerSize pf then splitMemoryUnit pf st a claimed
                 else Inr st)
            (\<lambda>st1.
          bindE (removeFromFreeUnits st1 a)
            (\<lambda>st2.
          bindE (modifyUnit st2 a (\<lambda>v. v\<lparr>isAllocated := True\<rparr>))
            (\<lambda>st3.
          Inr (computeAlignedAddress pf (a + headerSize pf),
               st3\<lparr>mNbTimesAllocateMethodCalled := mNbTimesAllocateMethodCalled st3 + 1\<rparr>)))))"

text \<open>
  Modelled from the spec: \<open>allocate\<close> (declared, body missing). The precondition
  \<open>size > 0\<close> is asserted (\<open>InvalidArgument\<close>). The Free List is searched from its head;
  when no unit suffices, \<open>reserve\<close> is called for the requested size and the search is
  retried once. The specification leaves open what a second failed search returns; here it
  is \<open>OutOfMemory\<close>.
\<close>

definition allocate ::
  "Platform \<Rightarrow> addr option \<Rightarrow> HeapAllocator \<Rightarrow> nat \<Rightarrow> (error + (addr \<times> HeapAllocator)) option" where
  "allocate pf blk st s =
     (if \<not> s > 0 then Some (Inl InvalidArgument)
      else
        case findFirstFit (fits pf s) (memory st) (mFreeUnits st) of
          None \<Rightarrow> None
        | Some (Inl e) \<Rightarrow> Some (Inl e)
        | Some (Inr (Some a)) \<Rightarrow> Some (allocateUnit pf st a s)
        | Some (Inr None) \<Rightarrow>
            (case reserve pf blk st s of
               None \<Rightarrow> None
             | Some (Inl e) \<Rightarrow> Some (Inl e)
             | Some (Inr st1) \<Rightarrow>
                 (case findFirstFit (fits pf s) (memory st1) (mFreeUnits st1) of
                    None \<Rightarrow> None
                  | Some (Inl e) \<Rightarrow> Some (Inl e)
                  | Some (Inr (Some a)) \<Rightarrow> Some (allocateUnit pf st1 a s)
                  | Some (Inr None) \<Rightarrow> Some (Inl OutOfMemory))))"

text \<open>
  Modelled from the spec: the merge attempt of \<open>release\<close> (body missing) with the
  neighbour in front of the unit, under the condition of the specification's third
  invariant: both units free and the earlier one contiguous with its successor. The result
  names the unit that survives.
\<close>

definition mergeWithPrevious :: "Platform \<Rightarrow> HeapAllocator \<Rightarrow> addr \<Rightarrow> error + (addr \<times> HeapAllocator)" where
  "mergeWithPrevious pf st a =
     (case memory st a of
        None \<Rightarrow> Inl InvalidAccess
      | Some u \<Rightarrow>
          (case previousUnit u of
             None \<Rightarrow> Inr (a, st)
           | Some p \<Rightarrow>
               (case memory st p of
                  None \<Rightarrow> Inl InvalidAccess
                | Some v \<Rightarrow>
                    if \<not> isAllocated v \<and> isNextContiguousMemory v
                    then bindE (mergeUnits pf st p a) (\<lambda>st1. Inr (p, st1))
                    else Inr (a, st))))"

text \<open>
  Modelled from the spec: the merge attempt of \<open>release\<close> (body missing) with the
  neighbour behind the unit, under the same condition; the unit itself survives.
\<close>

definition mergeWithNext :: "Platform \<Rightarrow> HeapAllocator \<Rightarrow> addr \<Rightarrow> error + HeapAllocator" where
  "mergeWithNext pf st a =
     (case memory st a of
        None \<Rightarrow> Inl InvalidAccess
      | Some u \<Rightarrow>
          (case nextUnit u of
             None \<Rightarrow> Inr st
           | Some n \<Rightarrow>
               (case memory st n of
                  None \<Rightarrow> Inl InvalidAccess
                | Some v \<Rightarrow>
                    if \<not> isAllocated v \<and> isNextContiguousMemory u
                    then mergeUnits pf st a n
                    else Inr st)))"

text \<open>
  Modelled from the spec: \<open>release\<close> (declared, body missing). The owning unit is found
  by subtracting the header-to-payload offset from the pointer; the recorded size is
  asserted to match; the unit is marked free, inserted into the Free List and merged with
  its neighbours, the previous one first; the call counter is decremented.
\<close>

definition release :: "Platform \<Rightarrow> HeapAllocator \<Rightarrow> addr \<Rightarrow> nat \<Rightarrow> error + HeapAllocator" where
  "release pf st pointer s =
     (if pointer < headerSize pf then Inl InvalidAccess
      else
        let a = pointer - headerSize pf in
        case memory st a of
          None \<Rightarrow> Inl InvalidAccess
        | Some u \<Rightarrow>
            if size_unit u \<noteq> s then Inl InvariantViolation
            else
              bindE (modifyUnit st a (\<lambda>v. v\<lparr>isAllocated := False\<rparr>))
                (\<lambda>st1.
              bindE (addToFreeUnits st1 a)
                (\<lambda>st2.
              bindE (mergeWithPrevious pf st2 a)
                (\<lambda>(c, st3).
              bindE (mergeWithNext pf st3 c)
                (\<lambda>st4.
              Inr (st4\<lparr>mNbTimesAllocateMethodCalled := mNbTimesAllocateMethodCalled st4 - 1\<rparr>))))))"

text \<open>
  Modelled from the spec: the constructor \<open>HeapAllocator(baseAllocator, initAllocatedMemory)\<close>
  (declared, body missing): empty lists, and a first reservation unless the initial size is
  zero ("reserve lazily on first allocation").
\<close>

definition HeapAllocator_ctor ::
  "Platform \<Rightarrow> addr option \<Rightarrow> nat \<Rightarrow> (error + HeapAllocator) option" where
  "HeapAllocator_ctor pf blk initAllocatedMemory =
     (let st = \<lparr> mAllocatedMemory = 0, mMemoryUnits = None, mFreeUnits = None,
                  mNbTimesAllocateMethodCalled = 0, memory = (\<lambda>_. None) \<rparr>
      in if initAllocatedMemory = 0 then Some (Inr st) else reserve pf blk st initAllocatedMemory)"

declare lastUnit.simps [code] findFirstFit.simps [code]


section \<open>The two lists, read off the memory\<close>

text \<open>
  The list of addresses met from \<open>p\<close> on along a link field; \<open>nxt a\<close> is the link of the
  header at \<open>a\<close>, or \<open>None\<close> when no header lives at \<open>a\<close>. The result is \<open>None\<close> when the
  walk meets a dangling pointer or never ends.
\<close>

partial_function (option) listFrom ::
  "(addr \<Rightarrow> addr option option) \<Rightarrow> addr option \<Rightarrow> addr list option" where
  "listFrom nxt p =
     (case p of
        None \<Rightarrow> Some []
      | Some a \<Rightarrow>
          (case nxt a of
             None \<Rightarrow> None
           | Some n \<Rightarrow> Option.bind (listFrom nxt n) (\<lambda>xs. Some (a # xs))))"

declare listFrom.simps [code]

text \<open>The Free List and the Unit List of a state.\<close>

definition freeUnits :: "HeapAllocator \<Rightarrow> addr list option" where
  "freeUnits st = listFrom (\<lambda>a. map_option nextFreeUnit (memory st a)) (mFreeUnits st)"

definition memoryUnits :: "HeapAllocator \<Rightarrow> addr list option" where
  "memoryUnits st = listFrom (\<lambda>a. map_option nextUnit (memory st a)) (mMemoryUnits st)"







section \<open>Runs of the allocator\<close>

text \<open>
  The contract of the Base Allocator: a block it hands out overlaps no unit the allocator
  already manages.
\<close>

definition blockFresh :: "Platform \<Rightarrow> HeapAllocator \<Rightarrow> addr option \<Rightarrow> nat \<Rightarrow> bool" where
  "blockFresh pf st blk n \<longleftrightarrow>
     (\<forall>b x u. blk = Some b \<longrightarrow> memory st x = Some u \<longrightarrow>
        x + headerSize pf + size_unit u \<le> b
        \<or> b + headerSize pf + max n (INIT_ALLOCATED_SIZE pf) \<le> x)"

text \<open>
  The contract of \<open>release\<close>: the pointer belongs to an allocation that is outstanding,
  that is, the unit in front of it is allocated.
\<close>

definition outstanding :: "Platform \<Rightarrow> HeapAllocator \<Rightarrow> addr \<Rightarrow> bool" where
  "outstanding pf st pointer \<longleftrightarrow>
     headerSize pf \<le> pointer
     \<and> (case memory st (pointer - headerSize pf) of None \<Rightarrow> False | Some u \<Rightarrow> isAllocated u)"

text \<open>
  The states an allocator can be in: the constructed state, and every state a successful
  \<open>allocate\<close>, \<open>release\<close>, \<open>reserve\<close>, \<open>splitMemoryUnit\<close> (at a positive size) or
  \<open>mergeUnits\<close> leads to from such a state. \<open>addToFreeUnits\<close> and \<open>removeFromFreeUnits\<close>
  run inside these operations only.
\<close>

inductive reachable :: "Platform \<Rightarrow> HeapAllocator \<Rightarrow> bool" for pf where
  construct: "HeapAllocator_ctor pf blk n = Some (Inr st) \<Longrightarrow> reachable pf st"
| allocate: "reachable pf st \<Longrightarrow> blockFresh pf st blk s
     \<Longrightarrow> allocate pf blk st s = Some (Inr (p, st')) \<Longrightarrow> reachable pf st'"
| release: "reachable pf st \<Longrightarrow> outstanding pf st p
     \<Longrightarrow> release pf st p s = Inr st' \<Longrightarrow> reachable pf st'"
| reserve: "reachable pf st \<Longrightarrow> blockFresh pf st blk n
     \<Longrightarrow> reserve pf blk st n = Some (Inr st') \<Longrightarrow> reachable pf st'"
| split: "reachable pf st \<Longrightarrow> 0 < s
     \<Longrightarrow> splitMemoryUnit pf st a s = Inr st' \<Longrightarrow> reachable pf st'"
| merge: "reachable pf st \<Longrightarrow> mergeUnits pf st a b = Inr st' \<Longrightarrow> reachable pf st'"


section \<open>The invariant of the allocator\<close>

text \<open>
  The invariant is stated on three projections of the memory: the links of the Unit List,
  the links of the Free List, and the triple (size, contiguity flag, allocation flag) of a
  unit. An update of one field changes one projection and leaves the other two alone.
\<close>

definition unitLinks ::
  "(addr \<Rightarrow> MemoryUnitHeader option) \<Rightarrow> addr \<Rightarrow> (addr option \<times> addr option) option" where
  "unitLinks m = (\<lambda>a. map_option (\<lambda>u. (previousUnit u, nextUnit u)) (m a))"

definition freeLinks ::
  "(addr \<Rightarrow> MemoryUnitHeader option) \<Rightarrow> addr \<Rightarrow> (addr option \<times> addr option) option" where
  "freeLinks m = (\<lambda>a. map_option (\<lambda>u. (previousFreeUnit u, nextFreeUnit u)) (m a))"

text \<open>
  \<open>dlseg L q p xs e\<close>: the addresses \<open>xs\<close> form a doubly linked segment that starts at the
  pointer \<open>p\<close>, whose first back link is \<open>q\<close> and whose last forward link is \<open>e\<close>.
\<close>

primrec dlseg ::
  "(addr \<Rightarrow> (addr option \<times> addr option) option) \<Rightarrow> addr option \<Rightarrow> addr option \<Rightarrow> addr list
   \<Rightarrow> addr option \<Rightarrow> bool" where
  "dlseg L q p [] e \<longleftrightarrow> p = e"
| "dlseg L q p (x # xs) e \<longleftrightarrow>
     p = Some x \<and> (case L x of None \<Rightarrow> False
                   | Some (pv, nx) \<Rightarrow> pv = q \<and> dlseg L (Some x) nx xs e)"

definition attrs ::
  "(addr \<Rightarrow> MemoryUnitHeader option) \<Rightarrow> addr \<Rightarrow> (nat \<times> bool \<times> bool) option" where
  "attrs m = (\<lambda>a. map_option (\<lambda>u. (size_unit u, isNextContiguousMemory u, isAllocated u)) (m a))"

definition szOf :: "(addr \<Rightarrow> (nat \<times> bool \<times> bool) option) \<Rightarrow> addr \<Rightarrow> nat" where
  "szOf A a = (case A a of Some (sz, c, al) \<Rightarrow> sz | None \<Rightarrow> 0)"

definition contigOf :: "(addr \<Rightarrow> (nat \<times> bool \<times> bool) option) \<Rightarrow> addr \<Rightarrow> bool" where
  "contigOf A a = (case A a of Some (sz, c, al) \<Rightarrow> c | None \<Rightarrow> False)"

definition allocOf :: "(addr \<Rightarrow> (nat \<times> bool \<times> bool) option) \<Rightarrow> addr \<Rightarrow> bool" where
  "allocOf A a = (case A a of Some (sz, c, al) \<Rightarrow> al | None \<Rightarrow> False)"

text \<open>
  A unit whose contiguity flag is set is followed in the Unit List by the unit that starts
  right behind its payload.
\<close>

fun contigOK :: "nat \<Rightarrow> (addr \<Rightarrow> (nat \<times> bool \<times> bool) option) \<Rightarrow> addr list \<Rightarrow> bool" where
  "contigOK hs A (x # y # ys) \<longleftrightarrow>
     (contigOf A x \<longrightarrow> y = x + hs + szOf A x) \<and> contigOK hs A (y # ys)"
| "contigOK hs A [x] \<longleftrightarrow> True"
| "contigOK hs A [] \<longleftrightarrow> True"

text \<open>
  The geometry of the units: the live headers are exactly the units of the Unit List, no
  unit is listed twice, every payload is non-empty, and no two units overlap.
\<close>

definition geomInv :: "nat \<Rightarrow> (addr \<Rightarrow> (nat \<times> bool \<times> bool) option) \<Rightarrow> addr list \<Rightarrow> bool" where
  "geomInv hs A us \<longleftrightarrow>
     dom A = set us \<and> distinct us
     \<and> (\<forall>a \<in> set us. 0 < szOf A a)
     \<and> (\<forall>a \<in> set us. \<forall>b \<in> set us. a \<noteq> b \<longrightarrow>
           a + hs + szOf A a \<le> b \<or> b + hs + szOf A b \<le> a)
     \<and> contigOK hs A us"

definition flagsOK :: "(addr \<Rightarrow> (nat \<times> bool \<times> bool) option) \<Rightarrow> addr list \<Rightarrow> addr list \<Rightarrow> bool" where
  "flagsOK A us fs \<longleftrightarrow> (\<forall>a. a \<in> set fs \<longleftrightarrow> a \<in> set us \<and> \<not> allocOf A a)"

definition totalOf :: "nat \<Rightarrow> (addr \<Rightarrow> (nat \<times> bool \<times> bool) option) \<Rightarrow> addr list \<Rightarrow> nat" where
  "totalOf hs A us = (\<Sum>a\<leftarrow>us. hs + szOf A a)"

definition nAlloc :: "(addr \<Rightarrow> (nat \<times> bool \<times> bool) option) \<Rightarrow> addr list \<Rightarrow> nat" where
  "nAlloc A us = length (filter (allocOf A) us)"

text \<open>
  The invariant of a state with Unit List \<open>us\<close> and Free List \<open>fs\<close>: both lists are
  well-formed doubly linked lists, the geometry holds, the Free List holds exactly the units
  that are not allocated, and the headers and payloads of the units add up to
  \<open>mAllocatedMemory\<close>. \<open>heapInv\<close> adds that the call counter is the number of allocated
  units.
\<close>

definition structInv :: "Platform \<Rightarrow> HeapAllocator \<Rightarrow> addr list \<Rightarrow> addr list \<Rightarrow> bool" where
  "structInv pf st us fs \<longleftrightarrow>
     dlseg (unitLinks (memory st)) None (mMemoryUnits st) us None
     \<and> dlseg (freeLinks (memory st)) None (mFreeUnits st) fs None
     \<and> geomInv (headerSize pf) (attrs (memory st)) us
     \<and> flagsOK (attrs (memory st)) us fs
     \<and> totalOf (headerSize pf) (attrs (memory st)) us = mAllocatedMemory st"

definition heapInv :: "Platform \<Rightarrow> HeapAllocator \<Rightarrow> addr list \<Rightarrow> addr list \<Rightarrow> bool" where
  "heapInv pf st us fs \<longleftrightarrow>
     structInv pf st us fs
     \<and> mNbTimesAllocateMethodCalled st = int (nAlloc (attrs (memory st)) us)"

text \<open>The pointer to the last element of a list segment that is entered from \<open>q\<close>.\<close>

definition lastp :: "addr option \<Rightarrow> addr list \<Rightarrow> addr option" where
  "lastp q xs = (if xs = [] then q else Some (last xs))"


section \<open>Example states\<close>

text \<open>
  A platform with headers of 48 bytes, an alignment of 16 bytes and a growth increment of
  1000 bytes.
\<close>

definition examplePlatform :: Platform where
  "examplePlatform = \<lparr> headerSize = 48, alignment = 16, INIT_ALLOCATED_SIZE = 1000 \<rparr>"

text \<open>
  The state right after the construction with one reservation: a single free unit with a
  payload of \<open>R\<close> bytes, whose header is at \<open>b\<close>.
\<close>

definition oneUnit :: "Platform \<Rightarrow> addr \<Rightarrow> nat \<Rightarrow> HeapAllocator" where
  "oneUnit pf b R =
     \<lparr> mAllocatedMemory = R + headerSize pf, mMemoryUnits = Some b, mFreeUnits = Some b,
       mNbTimesAllocateMethodCalled = 0,
       memory = [b \<mapsto> \<lparr> previousUnit = None, nextUnit = None,
                          previousFreeUnit = None, nextFreeUnit = None,
                          size_unit = R, isNextContiguousMemory = False,
                          isAllocated = False \<rparr>] \<rparr>"

text \<open>A block of 1000 payload bytes at address 0, on the example platform.\<close>

definition exampleInit :: HeapAllocator where
  "exampleInit = oneUnit examplePlatform 0 1000"

text \<open>\<open>exampleInit\<close> after \<open>removeFromFreeUnits\<close> of its unit.\<close>

definition exampleRemoved :: HeapAllocator where
  "exampleRemoved = exampleInit \<lparr> mFreeUnits := None \<rparr>"

text \<open>\<open>exampleInit\<close> after \<open>splitMemoryUnit\<close> of its unit at 32 bytes.\<close>

definition exampleSplit :: HeapAllocator where
  "exampleSplit =
     \<lparr> mAllocatedMemory = 1048, mMemoryUnits = Some 0, mFreeUnits = Some 80,
       mNbTimesAllocateMethodCalled = 0,
       memory = [80 \<mapsto> \<lparr> previousUnit = Some 0, nextUnit = None,
                           previousFreeUnit = None, nextFreeUnit = Some 0,
                           size_unit = 920, isNextContiguousMemory = False,
                           isAllocated = False \<rparr>,
                 0 \<mapsto> \<lparr> previousUnit = None, nextUnit = Some 80,
                          previousFreeUnit = Some 80, nextFreeUnit = None,
                          size_unit = 32, isNextContiguousMemory = True,
                          isAllocated = False \<rparr>] \<rparr>"

text \<open>\<open>exampleInit\<close> after the allocation of A (64 bytes).\<close>

definition exampleA :: HeapAllocator where
  "exampleA =
     \<lparr> mAllocatedMemory = 1048, mMemoryUnits = Some 0, mFreeUnits = Some 112,
       mNbTimesAllocateMethodCalled = 1,
       memory = [112 \<mapsto> \<lparr> previousUnit = Some 0, nextUnit = None,
                            previousFreeUnit = None, nextFreeUnit = None,
                            size_unit = 888, isNextContiguousMemory = False,
                            isAllocated = False \<rparr>,
                 0 \<mapsto> \<lparr> previousUnit = None, nextUnit = Some 112,
                          previousFreeUnit = None, nextFreeUnit = None,
                          size_unit = 64, isNextContiguousMemory = True,
                          isAllocated = True \<rparr>] \<rparr>"

text \<open>\<open>exampleA\<close> after the allocation of B (64 bytes).\<close>

definition exampleAB :: HeapAllocator where
  "exampleAB =
     \<lparr> mAllocatedMemory = 1048, mMemoryUnits = Some 0, mFreeUnits = Some 224,
       mNbTimesAllocateMethodCalled = 2,
       memory = [0 \<mapsto> \<lparr> previousUnit = None, nextUnit = Some 112,
                          previousFreeUnit = None, nextFreeUnit = None,
                          size_unit = 64, isNextContiguousMemory = True,
                          isAllocated = True \<rparr>,
                 224 \<mapsto> \<lparr> previousUnit = Some 112, nextUnit = None,
                            previousFreeUnit = None, nextFreeUnit = None,
                            size_unit = 776, isNextContiguousMemory = False,
                            isAllocated = False \<rparr>,
                 112 \<mapsto> \<lparr> previousUnit = Some 0, nextUnit = Some 224,
                            previousFreeUnit = None, nextFreeUnit = None,
                            size_unit = 64, isNextContiguousMemory = True,
                            isAllocated = True \<rparr>] \<rparr>"

text \<open>\<open>exampleAB\<close> after the release of A.\<close>

definition exampleAB_A :: HeapAllocator where
  "exampleAB_A =
     \<lparr> mAllocatedMemory = 1048, mMemoryUnits = Some 0, mFreeUnits = Some 0,
       mNbTimesAllocateMethodCalled = 1,
       memory = [112 \<mapsto> \<lparr> previousUnit = Some 0, nextUnit = Some 224,
                            previousFreeUnit = None, nextFreeUnit = None,
                            size_unit = 64, isNextContiguousMemory = True,
                            isAllocated = True \<rparr>,
                 0 \<mapsto> \<lparr> previousUnit = None, nextUnit = Some 112,
                          previousFreeUnit = None, nextFreeUnit = Some 224,
                          size_unit = 64, isNextContiguousMemory = True,
                          isAllocated = False \<rparr>,
                 224 \<mapsto> \<lparr> previousUnit = Some 112, nextUnit = None,
                            previousFreeUnit = Some 0, nextFreeUnit = None,
                            size_unit = 776, isNextContiguousMemory = False,
                            isAllocated = False \<rparr>] \<rparr>"


section \<open>Preservation of the invariant\<close>

subsection \<open>Doubly linked list segments\<close>

lemma dlseg_frame:
  "(\<And>x. x \<in> set xs \<Longrightarrow> L' x = L x) \<Longrightarrow> dlseg L' q p xs e = dlseg L q p xs e"
  by (induction xs arbitrary: q p) (auto split: option.splits)

lemma dlseg_append:
  "dlseg L q p (xs @ ys) e \<longleftrightarrow> (\<exists>m. dlseg L q p xs m \<and> dlseg L (lastp q xs) m ys e)"
  by (induction xs arbitrary: q p) (auto simp: lastp_def split: option.splits)

lemma dlseg_dom: "dlseg L q p xs e \<Longrightarrow> x \<in> set xs \<Longrightarrow> \<exists>pv nx. L x = Some (pv, nx)"
  by (induction xs arbitrary: q p) (auto split: option.splits)

lemma dlseg_prev:
  "dlseg L q p xs e \<Longrightarrow> x \<in> set xs \<Longrightarrow>
     \<exists>pv nx. L x = Some (pv, nx) \<and> (pv = q \<or> (\<exists>y \<in> set xs. pv = Some y))"
  by (induction xs arbitrary: q p) (fastforce split: option.splits)+

lemma dlseg_distinct:
  "dlseg L q p xs e \<Longrightarrow> (\<And>y. q = Some y \<Longrightarrow> y \<notin> set xs) \<Longrightarrow> distinct xs"
proof (induction xs arbitrary: q p)
  case Nil
  then show ?case by simp
next
  case (Cons x xs)
  from Cons.prems(1) obtain nx where lx: "L x = Some (q, nx)" and tl: "dlseg L (Some x) nx xs e"
    by (auto split: option.splits)
  have "x \<notin> set xs"
  proof
    assume "x \<in> set xs"
    from dlseg_prev [OF tl this] lx have "q = Some x \<or> (\<exists>y \<in> set xs. q = Some y)"
      by auto
    with Cons.prems(2) show False by auto
  qed
  moreover from this have "distinct xs"
    by (intro Cons.IH [OF tl]) auto
  ultimately show ?case by simp
qed

lemma dlseg_unique:
  "dlseg L q p xs None \<Longrightarrow> dlseg L q p ys None \<Longrightarrow> xs = ys"
proof (induction xs arbitrary: q p ys)
  case Nil
  then show ?case by (cases ys) auto
next
  case (Cons x xs)
  then show ?case by (cases ys) (auto split: option.splits)
qed

lemma listFrom_dlseg:
  "dlseg L q p xs None \<Longrightarrow> listFrom (\<lambda>a. map_option snd (L a)) p = Some xs"
proof (induction xs arbitrary: q p)
  case Nil
  then show ?case by (simp add: listFrom.simps)
next
  case (Cons x xs)
  then show ?case
    by (subst listFrom.simps) (auto split: option.splits)
qed

subsection \<open>The projections under updates of the memory\<close>

lemma unitLinks_upd [simp]:
  "unitLinks (m(a \<mapsto> u)) = (unitLinks m)(a \<mapsto> (previousUnit u, nextUnit u))"
  by (auto simp: unitLinks_def)

lemma freeLinks_upd [simp]:
  "freeLinks (m(a \<mapsto> u)) = (freeLinks m)(a \<mapsto> (previousFreeUnit u, nextFreeUnit u))"
  by (auto simp: freeLinks_def)

lemma attrs_upd [simp]:
  "attrs (m(a \<mapsto> u)) = (attrs m)(a \<mapsto> (size_unit u, isNextContiguousMemory u, isAllocated u))"
  by (auto simp: attrs_def)

lemma unitLinks_del [simp]: "unitLinks (m(a := None)) = (unitLinks m)(a := None)"
  by (auto simp: unitLinks_def)

lemma freeLinks_del [simp]: "freeLinks (m(a := None)) = (freeLinks m)(a := None)"
  by (auto simp: freeLinks_def)

lemma attrs_del [simp]: "attrs (m(a := None)) = (attrs m)(a := None)"
  by (auto simp: attrs_def)

lemma unitLinks_Some: "m a = Some u \<Longrightarrow> unitLinks m a = Some (previousUnit u, nextUnit u)"
  by (simp add: unitLinks_def)

lemma freeLinks_Some: "m a = Some u \<Longrightarrow> freeLinks m a = Some (previousFreeUnit u, nextFreeUnit u)"
  by (simp add: freeLinks_def)

lemma attrs_Some:
  "m a = Some u \<Longrightarrow> attrs m a = Some (size_unit u, isNextContiguousMemory u, isAllocated u)"
  by (simp add: attrs_def)

lemma freeLinks_SomeD:
  "freeLinks m a = Some (pv, nx) \<Longrightarrow> \<exists>u. m a = Some u \<and> previousFreeUnit u = pv \<and> nextFreeUnit u = nx"
  by (auto simp: freeLinks_def)

lemma unitLinks_SomeD:
  "unitLinks m a = Some (pv, nx) \<Longrightarrow> \<exists>u. m a = Some u \<and> previousUnit u = pv \<and> nextUnit u = nx"
  by (auto simp: unitLinks_def)

lemma upd_same: "f a = Some v \<Longrightarrow> f(a \<mapsto> v) = f"
  by (auto simp: fun_upd_def)

lemma addToFreeUnits_list:
  assumes fl: "dlseg (freeLinks (memory st)) None (mFreeUnits st) fs None"
    and a: "memory st a = Some u" and nin: "a \<notin> set fs"
  shows "\<exists>st'. addToFreeUnits st a = Inr st'
           \<and> dlseg (freeLinks (memory st')) None (mFreeUnits st') (a # fs) None
           \<and> unitLinks (memory st') = unitLinks (memory st)
           \<and> attrs (memory st') = attrs (memory st)
           \<and> mMemoryUnits st' = mMemoryUnits st
           \<and> mAllocatedMemory st' = mAllocatedMemory st
           \<and> mNbTimesAllocateMethodCalled st' = mNbTimesAllocateMethodCalled st"
proof (cases fs)
  case Nil
  with fl have "mFreeUnits st = None" by simp
  with a show ?thesis
    by (simp add: addToFreeUnits_def modifyUnit_def modifyUnitOpt_def bindE_def Nil
        upd_same unitLinks_Some attrs_Some)
next
  case (Cons x xs)
  with fl obtain nx where hd: "mFreeUnits st = Some x"
    and lx: "freeLinks (memory st) x = Some (None, nx)"
    and tl: "dlseg (freeLinks (memory st)) (Some x) nx xs None"
    by (auto split: option.splits)
  from lx obtain v where v: "memory st x = Some v" "previousFreeUnit v = None" "nextFreeUnit v = nx"
    by (auto dest: freeLinks_SomeD)
  from dlseg_distinct [OF fl] have "distinct fs" by simp
  with Cons nin have ne: "x \<noteq> a" "x \<notin> set xs" "a \<notin> set xs" by auto
  have "dlseg ((freeLinks (memory st))(a \<mapsto> (None, Some x), x \<mapsto> (Some a, nx))) (Some x) nx xs None"
    using tl ne by (subst dlseg_frame [where L = "freeLinks (memory st)"]) auto
  with a v hd ne show ?thesis
    by (simp add: addToFreeUnits_def modifyUnit_def modifyUnitOpt_def bindE_def Cons
        upd_same unitLinks_Some attrs_Some)
qed

subsection \<open>Removal from the Free List\<close>

lemma dlseg_snoc:
  "dlseg L q p (xs @ [y]) e \<longleftrightarrow>
     dlseg L q p xs (Some y) \<and> (\<exists>nx. L y = Some (lastp q xs, nx) \<and> nx = e)"
  by (auto simp: dlseg_append split: option.splits)

lemma lastp_simps [simp]:
  "lastp q [] = q" "lastp q (xs @ [y]) = Some y" "lastp q (x # xs) = lastp (Some x) xs"
  by (auto simp: lastp_def)

lemma removeFromFreeUnits_list:
  assumes fl: "dlseg (freeLinks (memory st)) None (mFreeUnits st) (as @ a # bs) None"
  shows "\<exists>st'. removeFromFreeUnits st a = Inr st'
           \<and> dlseg (freeLinks (memory st')) None (mFreeUnits st') (as @ bs) None
           \<and> freeLinks (memory st') a = Some (None, None)
           \<and> unitLinks (memory st') = unitLinks (memory st)
           \<and> attrs (memory st') = attrs (memory st)
           \<and> mMemoryUnits st' = mMemoryUnits st
           \<and> mAllocatedMemory st' = mAllocatedMemory st
           \<and> mNbTimesAllocateMethodCalled st' = mNbTimesAllocateMethodCalled st"
proof -
  let ?L = "freeLinks (memory st)"
  from dlseg_distinct [OF fl] have dist: "distinct (as @ a # bs)" by simp
  from fl obtain nx where pre: "dlseg ?L None (mFreeUnits st) as (Some a)"
    and la: "?L a = Some (lastp None as, nx)" and post: "dlseg ?L (Some a) nx bs None"
    by (auto simp: dlseg_append split: option.splits)
  from la obtain u where u: "memory st a = Some u" "previousFreeUnit u = lastp None as"
    "nextFreeUnit u = nx"
    by (auto dest: freeLinks_SomeD)
  show ?thesis
  proof (cases as rule: rev_cases)
    case Nil
    with pre have hd: "mFreeUnits st = Some a" by simp
    show ?thesis
    proof (cases bs)
      case Nil
      with post have "nx = None" by simp
      with u hd \<open>as = []\<close> Nil show ?thesis
        by (simp add: removeFromFreeUnits_def modifyUnit_def modifyUnitOpt_def bindE_def
            upd_same unitLinks_Some attrs_Some freeLinks_Some)
    next
      case (Cons z bs')
      with post obtain nz where nx: "nx = Some z" and lz: "?L z = Some (Some a, nz)"
        and tl: "dlseg ?L (Some z) nz bs' None"
        by (auto split: option.splits)
      from lz obtain v where v: "memory st z = Some v" "previousFreeUnit v = Some a"
        "nextFreeUnit v = nz"
        by (auto dest: freeLinks_SomeD)
      from dist Cons have ne: "z \<noteq> a" "z \<notin> set bs'" "a \<notin> set bs'" by auto
      have "dlseg (?L(z \<mapsto> (None, nz), a \<mapsto> (None, None))) (Some z) nz bs' None"
        using tl ne by (subst dlseg_frame [where L = ?L]) auto
      with u v hd nx ne \<open>as = []\<close> Cons show ?thesis
        by (simp add: removeFromFreeUnits_def modifyUnit_def modifyUnitOpt_def bindE_def
            upd_same unitLinks_Some attrs_Some freeLinks_Some)
    qed
  next
    case (snoc as' y)
    with pre obtain ly: "?L y = Some (lastp None as', Some a)"
      and pre': "dlseg ?L None (mFreeUnits st) as' (Some y)"
      by (auto simp: dlseg_snoc)
    from ly obtain w where w: "memory st y = Some w" "previousFreeUnit w = lastp None as'"
      "nextFreeUnit w = Some a"
      by (auto dest: freeLinks_SomeD)
    from dist snoc have ney: "y \<noteq> a" "y \<notin> set as'" "a \<notin> set as'" "y \<notin> set bs" by auto
    have hd: "mFreeUnits st \<noteq> Some a"
      using pre' ney by (cases as') auto
    from u snoc have pu: "previousFreeUnit u = Some y" by simp
    show ?thesis
    proof (cases bs)
      case Nil
      with post have nx: "nx = None" by simp
      have "dlseg (?L(y \<mapsto> (lastp None as', None), a \<mapsto> (None, None))) None (mFreeUnits st) as' (Some y)"
        using pre' ney by (subst dlseg_frame [where L = ?L]) auto
      with u w hd nx ney pu snoc Nil show ?thesis
        by (simp add: removeFromFreeUnits_def modifyUnit_def modifyUnitOpt_def bindE_def
            upd_same unitLinks_Some attrs_Some freeLinks_Some dlseg_snoc)
    next
      case (Cons z bs')
      with post obtain nz where nx: "nx = Some z" and lz: "?L z = Some (Some a, nz)"
        and tl: "dlseg ?L (Some z) nz bs' None"
        by (auto split: option.splits)
      from lz obtain v where v: "memory st z = Some v" "previousFreeUnit v = Some a"
        "nextFreeUnit v = nz"
        by (auto dest: freeLinks_SomeD)
      from dist Cons snoc have ne: "z \<noteq> a" "z \<notin> set bs'" "a \<notin> set bs'" "z \<noteq> y" "z \<notin> set as'"
        "y \<notin> set bs'" by auto
      let ?L' = "?L(y \<mapsto> (lastp None as', Some z), z \<mapsto> (Some y, nz), a \<mapsto> (None, None))"
      have 1: "dlseg ?L' (Some z) nz bs' None"
        using tl ne by (subst dlseg_frame [where L = ?L]) auto
      have 2: "dlseg ?L' None (mFreeUnits st) as' (Some y)"
        using pre' ney ne by (subst dlseg_frame [where L = ?L]) auto
      from 1 2 ne ney have "dlseg ?L' None (mFreeUnits st) (as' @ y # z # bs') None"
        by (auto simp: dlseg_append)
      with u w v hd nx ney ne pu snoc Cons show ?thesis
        by (simp add: removeFromFreeUnits_def modifyUnit_def modifyUnitOpt_def bindE_def
            upd_same unitLinks_Some attrs_Some freeLinks_Some)
    qed
  qed
qed

subsection \<open>\<open>splitMemoryUnit\<close> on the two lists\<close>

lemma dom_attrs [simp]: "dom (attrs m) = dom m"
  by (auto simp: attrs_def)

lemma dom_freeLinks [simp]: "dom (freeLinks m) = dom m"
  by (auto simp: freeLinks_def)

lemma dom_unitLinks [simp]: "dom (unitLinks m) = dom m"
  by (auto simp: unitLinks_def)

lemma dlseg_subset_dom: "dlseg L q p xs e \<Longrightarrow> set xs \<subseteq> dom L"
  by (auto dest: dlseg_dom)

lemma bindE_simps [simp]: "bindE (Inr x) f = f x" "bindE (Inl e) f = Inl e"
  by (simp_all add: bindE_def)

lemma bindE_assoc: "bindE (bindE m f) g = bindE m (\<lambda>x. bindE (f x) g)"
  by (cases m) simp_all

lemma splitMemoryUnit_lists:
  assumes ul: "dlseg (unitLinks (memory st)) None (mMemoryUnits st) (as @ a # bs) None"
    and fl: "dlseg (freeLinks (memory st)) None (mFreeUnits st) fs None"
    and u: "memory st a = Some u"
    and new: "a + headerSize pf + s \<notin> dom (memory st)"
    and sz: "s + headerSize pf < size_unit u"
  shows "\<exists>st'. splitMemoryUnit pf st a s = Inr st'
           \<and> dlseg (unitLinks (memory st')) None (mMemoryUnits st')
                (as @ a # (a + headerSize pf + s) # bs) None
           \<and> dlseg (freeLinks (memory st')) None (mFreeUnits st') ((a + headerSize pf + s) # fs) None
           \<and> attrs (memory st') = (attrs (memory st))
                (a \<mapsto> (s, True, isAllocated u),
                 a + headerSize pf + s \<mapsto> (size_unit u - s - headerSize pf, isNextContiguousMemory u, False))
           \<and> mMemoryUnits st' = mMemoryUnits st
           \<and> mAllocatedMemory st' = mAllocatedMemory st
           \<and> mNbTimesAllocateMethodCalled st' = mNbTimesAllocateMethodCalled st"
proof -
  let ?n = "a + headerSize pf + s"
  let ?U = "unitLinks (memory st)"
  let ?hdr = "\<lparr> previousUnit = Some a, nextUnit = nextUnit u,
                 previousFreeUnit = None, nextFreeUnit = None,
                 size_unit = size_unit u - s - headerSize pf,
                 isNextContiguousMemory = isNextContiguousMemory u, isAllocated = False \<rparr>"
  from dlseg_distinct [OF ul] have dist: "distinct (as @ a # bs)" by simp
  from dlseg_subset_dom [OF ul] new have nin: "?n \<notin> set as" "?n \<noteq> a" "?n \<notin> set bs"
    by auto
  from dlseg_subset_dom [OF fl] new have ninf: "?n \<notin> set fs"
    by auto
  from ul u obtain pre: "dlseg ?U None (mMemoryUnits st) as (Some a)"
    and pu: "previousUnit u = lastp None as" and post: "dlseg ?U (Some a) (nextUnit u) bs None"
    by (auto simp: dlseg_append unitLinks_Some split: option.splits)
  let ?u' = "u\<lparr>size_unit := s, nextUnit := Some ?n, isNextContiguousMemory := True\<rparr>"
  obtain st3 where st3: "bindE (modifyUnit (st\<lparr>memory := (memory st)(?n \<mapsto> ?hdr)\<rparr>) a
                   (\<lambda>v. v\<lparr>size_unit := s, nextUnit := Some ?n, isNextContiguousMemory := True\<rparr>))
            (\<lambda>st1. modifyUnitOpt st1 (nextUnit u) (\<lambda>v. v\<lparr>previousUnit := Some ?n\<rparr>)) = Inr st3"
    and ul3: "dlseg (unitLinks (memory st3)) None (mMemoryUnits st3) (as @ a # ?n # bs) None"
    and fl3: "freeLinks (memory st3) = (freeLinks (memory st))(?n \<mapsto> (None, None))"
    and at3: "attrs (memory st3) = (attrs (memory st))
                (a \<mapsto> (s, True, isAllocated u),
                 ?n \<mapsto> (size_unit u - s - headerSize pf, isNextContiguousMemory u, False))"
    and rest3: "mMemoryUnits st3 = mMemoryUnits st" "mFreeUnits st3 = mFreeUnits st"
       "mAllocatedMemory st3 = mAllocatedMemory st"
       "mNbTimesAllocateMethodCalled st3 = mNbTimesAllocateMethodCalled st"
       "memory st3 ?n \<noteq> None"
  proof (cases bs)
    case Nil
    with post have nu: "nextUnit u = None" by simp
    let ?U' = "?U(?n \<mapsto> (Some a, None), a \<mapsto> (lastp None as, Some ?n))"
    have "dlseg ?U' None (mMemoryUnits st) as (Some a)"
      using pre nin dist by (subst dlseg_frame [where L = ?U]) auto
    then have "dlseg ?U' None (mMemoryUnits st) (as @ [a, ?n]) None"
      using nin by (auto simp: dlseg_append)
    with u nu pu nin Nil show ?thesis
      by (intro that [of "st\<lparr>memory := (memory st)(?n \<mapsto> ?hdr, a \<mapsto> ?u')\<rparr>"])
        (auto simp: modifyUnit_def modifyUnitOpt_def bindE_def upd_same freeLinks_Some fun_upd_twist)
  next
    case (Cons z bs')
    with post obtain nz where nu: "nextUnit u = Some z" and lz: "?U z = Some (Some a, nz)"
      and tl: "dlseg ?U (Some z) nz bs' None"
      by (auto split: option.splits)
    from lz obtain v where v: "memory st z = Some v" "previousUnit v = Some a" "nextUnit v = nz"
      by (auto dest: unitLinks_SomeD)
    from dist Cons nin have ne: "z \<noteq> a" "z \<notin> set bs'" "a \<notin> set bs'" "z \<notin> set as" "a \<notin> set as"
      "?n \<noteq> z" "?n \<notin> set bs'" by auto
    let ?U' = "?U(?n \<mapsto> (Some a, Some z), a \<mapsto> (lastp None as, Some ?n), z \<mapsto> (Some ?n, nz))"
    have 1: "dlseg ?U' None (mMemoryUnits st) as (Some a)"
      using pre nin ne by (subst dlseg_frame [where L = ?U]) auto
    have 2: "dlseg ?U' (Some z) nz bs' None"
      using tl nin ne by (subst dlseg_frame [where L = ?U]) auto
    from 1 2 nin ne have "dlseg ?U' None (mMemoryUnits st) (as @ a # ?n # z # bs') None"
      by (auto simp: dlseg_append)
    with u v nu pu nin ne Cons show ?thesis
      by (intro that [of "st\<lparr>memory := (memory st)(?n \<mapsto> ?hdr, a \<mapsto> ?u',
                                      z \<mapsto> v\<lparr>previousUnit := Some ?n\<rparr>)\<rparr>"])
        (auto simp: modifyUnit_def modifyUnitOpt_def bindE_def upd_same freeLinks_Some
          attrs_Some fun_upd_twist)
  qed
  have "dlseg (freeLinks (memory st3)) None (mFreeUnits st3) fs None"
    using fl ninf unfolding fl3 rest3 by (subst dlseg_frame [where L = "freeLinks (memory st)"]) auto
  from addToFreeUnits_list [OF this _ ninf, of "the (memory st3 ?n)"] rest3
  obtain st' where st': "addToFreeUnits st3 ?n = Inr st'"
    "dlseg (freeLinks (memory st')) None (mFreeUnits st') (?n # fs) None"
    "unitLinks (memory st') = unitLinks (memory st3)"
    "attrs (memory st') = attrs (memory st3)"
    "mMemoryUnits st' = mMemoryUnits st3"
    "mAllocatedMemory st' = mAllocatedMemory st3"
    "mNbTimesAllocateMethodCalled st' = mNbTimesAllocateMethodCalled st3"
    by auto
  have "splitMemoryUnit pf st a s = Inr st'"
    using u sz st'(1) st3
    by (simp add: splitMemoryUnit_def MemoryUnitHeader_ctor_def Let_def
        bindE_assoc [symmetric])
  with st' ul3 at3 rest3 show ?thesis by simp
qed

subsection \<open>\<open>mergeUnits\<close> on the two lists\<close>

lemma mergeUnits_lists:
  assumes ul: "dlseg (unitLinks (memory st)) None (mMemoryUnits st) (as @ a # b # bs) None"
    and fl: "dlseg (freeLinks (memory st)) None (mFreeUnits st) (fa @ b # fb) None"
    and u1: "memory st a = Some u1" and u2: "memory st b = Some u2"
    and free: "\<not> isAllocated u1" "\<not> isAllocated u2"
    and contig: "isNextContiguousMemory u1"
  shows "\<exists>st'. mergeUnits pf st a b = Inr st'
           \<and> dlseg (unitLinks (memory st')) None (mMemoryUnits st') (as @ a # bs) None
           \<and> dlseg (freeLinks (memory st')) None (mFreeUnits st') (fa @ fb) None
           \<and> attrs (memory st') = (attrs (memory st))
                (a \<mapsto> (size_unit u1 + (headerSize pf + size_unit u2), isNextContiguousMemory u2, False),
                 b := None)
           \<and> mMemoryUnits st' = mMemoryUnits st
           \<and> mAllocatedMemory st' = mAllocatedMemory st
           \<and> mNbTimesAllocateMethodCalled st' = mNbTimesAllocateMethodCalled st"
proof -
  let ?U = "unitLinks (memory st)"
  let ?u1' = "u1\<lparr>size_unit := size_unit u1 + (headerSize pf + size_unit u2),
                  nextUnit := nextUnit u2,
                  isNextContiguousMemory := isNextContiguousMemory u2\<rparr>"
  from dlseg_distinct [OF ul] have dist: "distinct (as @ a # b # bs)" by simp
  from dlseg_distinct [OF fl] have distf: "distinct (fa @ b # fb)" by simp
  from ul u1 u2 obtain pre: "dlseg ?U None (mMemoryUnits st) as (Some a)"
    and pu: "previousUnit u1 = lastp None as" and nu: "nextUnit u1 = Some b"
    and pb: "previousUnit u2 = Some a"
    and post: "dlseg ?U (Some b) (nextUnit u2) bs None"
    by (auto simp: dlseg_append unitLinks_Some split: option.splits)
  from dist have ne: "a \<noteq> b" "a \<notin> set as" "b \<notin> set as" "a \<notin> set bs" "b \<notin> set bs" by auto
  have hd: "mMemoryUnits st \<noteq> Some b"
    using pre ne by (cases as) auto
  obtain st2 where st2: "bindE (modifyUnit st a
                     (\<lambda>v. v\<lparr>size_unit := size_unit u1 + (headerSize pf + size_unit u2),
                             nextUnit := nextUnit u2,
                             isNextContiguousMemory := isNextContiguousMemory u2\<rparr>))
              (\<lambda>st1. modifyUnitOpt st1 (nextUnit u2) (\<lambda>v. v\<lparr>previousUnit := Some a\<rparr>)) = Inr st2"
    and ul2: "dlseg ((unitLinks (memory st2))(b := None)) None (mMemoryUnits st2) (as @ a # bs) None"
    and fl2: "freeLinks (memory st2) = freeLinks (memory st)"
    and at2: "attrs (memory st2) = (attrs (memory st))
                (a \<mapsto> (size_unit u1 + (headerSize pf + size_unit u2), isNextContiguousMemory u2, False))"
    and rest2: "mMemoryUnits st2 = mMemoryUnits st" "mFreeUnits st2 = mFreeUnits st"
       "mAllocatedMemory st2 = mAllocatedMemory st"
       "mNbTimesAllocateMethodCalled st2 = mNbTimesAllocateMethodCalled st"
  proof (cases bs)
    case Nil
    with post have n2: "nextUnit u2 = None" by simp
    let ?U' = "?U(a \<mapsto> (lastp None as, None), b := None)"
    have "dlseg ?U' None (mMemoryUnits st) as (Some a)"
      using pre ne by (subst dlseg_frame [where L = ?U]) auto
    then have "dlseg ?U' None (mMemoryUnits st) (as @ [a]) None"
      using ne by (auto simp: dlseg_append)
    with u1 u2 n2 pu ne free Nil show ?thesis
      by (intro that [of "st\<lparr>memory := (memory st)(a \<mapsto> ?u1')\<rparr>"])
        (auto simp: modifyUnit_def modifyUnitOpt_def upd_same freeLinks_Some)
  next
    case (Cons z bs')
    with post obtain nz where n2: "nextUnit u2 = Some z" and lz: "?U z = Some (Some b, nz)"
      and tl: "dlseg ?U (Some z) nz bs' None"
      by (auto split: option.splits)
    from lz obtain v where v: "memory st z = Some v" "previousUnit v = Some b" "nextUnit v = nz"
      by (auto dest: unitLinks_SomeD)
    from dist Cons have nez: "z \<noteq> a" "z \<noteq> b" "z \<notin> set bs'" "a \<notin> set bs'" "b \<notin> set bs'"
      "z \<notin> set as" by auto
    let ?U' = "?U(a \<mapsto> (lastp None as, Some z), z \<mapsto> (Some a, nz), b := None)"
    have 1: "dlseg ?U' None (mMemoryUnits st) as (Some a)"
      using pre ne nez by (subst dlseg_frame [where L = ?U]) auto
    have 2: "dlseg ?U' (Some z) nz bs' None"
      using tl ne nez by (subst dlseg_frame [where L = ?U]) auto
    from 1 2 ne nez have "dlseg ?U' None (mMemoryUnits st) (as @ a # z # bs') None"
      by (auto simp: dlseg_append)
    with u1 u2 v n2 pu ne nez free Cons show ?thesis
      by (intro that [of "st\<lparr>memory := (memory st)(a \<mapsto> ?u1', z \<mapsto> v\<lparr>previousUnit := Some a\<rparr>)\<rparr>"])
        (auto simp: modifyUnit_def modifyUnitOpt_def upd_same freeLinks_Some attrs_Some)
  qed
  from fl have "dlseg (freeLinks (memory st2)) None (mFreeUnits st2) (fa @ b # fb) None"
    by (simp add: fl2 rest2)
  from removeFromFreeUnits_list [OF this] obtain st3 where st3: "removeFromFreeUnits st2 b = Inr st3"
    "dlseg (freeLinks (memory st3)) None (mFreeUnits st3) (fa @ fb) None"
    "unitLinks (memory st3) = unitLinks (memory st2)"
    "attrs (memory st3) = attrs (memory st2)"
    "mMemoryUnits st3 = mMemoryUnits st2"
    "mAllocatedMemory st3 = mAllocatedMemory st2"
    "mNbTimesAllocateMethodCalled st3 = mNbTimesAllocateMethodCalled st2"
    by auto
  have "dlseg ((freeLinks (memory st3))(b := None)) None (mFreeUnits st3) (fa @ fb) None"
    using st3(2) distf by (subst dlseg_frame [where L = "freeLinks (memory st3)"]) auto
  moreover have "mergeUnits pf st a b = Inr (st3\<lparr>memory := (memory st3)(b := None)\<rparr>)"
    using u1 u2 free contig nu st2 st3(1)
    by (simp add: mergeUnits_def bindE_assoc [symmetric])
  ultimately show ?thesis
    using st3 ul2 at2 rest2 by simp
qed

subsection \<open>\<open>reserve\<close> on the two lists\<close>

lemma lastUnit_dlseg:
  "dlseg (unitLinks m) q (Some x) (x # xs) None \<Longrightarrow> lastUnit m x = Some (Inr (last (x # xs)))"
proof (induction xs arbitrary: x q)
  case Nil
  then show ?case
    by (subst lastUnit.simps) (auto simp: unitLinks_def split: option.splits)
next
  case (Cons y ys)
  from Cons.prems have "dlseg (unitLinks m) (Some x) (Some y) (y # ys) None"
    and "\<exists>u. m x = Some u \<and> nextUnit u = Some y"
    by (auto simp: unitLinks_def split: option.splits)
  with Cons.IH [of "Some x" y] show ?case
    by (subst lastUnit.simps) auto
qed

lemma reserve_lists:
  assumes ul: "dlseg (unitLinks (memory st)) None (mMemoryUnits st) us None"
    and fl: "dlseg (freeLinks (memory st)) None (mFreeUnits st) fs None"
    and new: "b \<notin> dom (memory st)"
    and pos: "0 < max n (INIT_ALLOCATED_SIZE pf)"
  shows "\<exists>st'. reserve pf (Some b) st n = Some (Inr st')
           \<and> dlseg (unitLinks (memory st')) None (mMemoryUnits st') (us @ [b]) None
           \<and> dlseg (freeLinks (memory st')) None (mFreeUnits st') (b # fs) None
           \<and> (us = [] \<longrightarrow> attrs (memory st') =
                 (attrs (memory st))(b \<mapsto> (max n (INIT_ALLOCATED_SIZE pf), False, False)))
           \<and> (us \<noteq> [] \<longrightarrow> (\<exists>ut. memory st (last us) = Some ut \<and> attrs (memory st') =
                 (attrs (memory st))(last us \<mapsto> (size_unit ut, False, isAllocated ut),
                    b \<mapsto> (max n (INIT_ALLOCATED_SIZE pf), False, False))))
           \<and> mAllocatedMemory st' =
               mAllocatedMemory st + (max n (INIT_ALLOCATED_SIZE pf) + headerSize pf)
           \<and> mNbTimesAllocateMethodCalled st' = mNbTimesAllocateMethodCalled st"
proof -
  let ?U = "unitLinks (memory st)"
  let ?p = "max n (INIT_ALLOCATED_SIZE pf)"
  from dlseg_distinct [OF ul] have dist: "distinct us" by simp
  from dlseg_subset_dom [OF ul] new have nin: "b \<notin> set us" by auto
  from dlseg_subset_dom [OF fl] new have ninf: "b \<notin> set fs" by auto
  let ?hdr = "\<lambda>t. \<lparr> previousUnit = t, nextUnit = None,
                 previousFreeUnit = None, nextFreeUnit = None,
                 size_unit = ?p, isNextContiguousMemory = False, isAllocated = False \<rparr>"
  obtain t st1 where t: "(case mMemoryUnits st of None \<Rightarrow> Some (Inr None)
                 | Some f \<Rightarrow> map_option (map_sum id Some) (lastUnit (memory st) f)) = Some (Inr t)"
    and st1: "modifyUnitOpt (st\<lparr>memory := (memory st)(b \<mapsto> ?hdr t)\<rparr>) t
                        (\<lambda>v. v\<lparr>nextUnit := Some b, isNextContiguousMemory := False\<rparr>) = Inr st1"
    and ul1: "dlseg (unitLinks (memory st1)) None (if t = None then Some b else mMemoryUnits st1)
                (us @ [b]) None"
    and fl1: "freeLinks (memory st1) = (freeLinks (memory st))(b \<mapsto> (None, None))"
    and at1: "us = [] \<longrightarrow> attrs (memory st1) = (attrs (memory st))(b \<mapsto> (?p, False, False))"
      "us \<noteq> [] \<longrightarrow> (\<exists>ut. memory st (last us) = Some ut \<and> attrs (memory st1) =
                 (attrs (memory st))(last us \<mapsto> (size_unit ut, False, isAllocated ut),
                    b \<mapsto> (?p, False, False)))"
    and rest1: "mFreeUnits st1 = mFreeUnits st"
       "mAllocatedMemory st1 = mAllocatedMemory st"
       "mNbTimesAllocateMethodCalled st1 = mNbTimesAllocateMethodCalled st"
       "memory st1 b \<noteq> None"
  proof (cases us rule: rev_cases)
    case Nil
    with ul have "mMemoryUnits st = None" by simp
    with Nil show ?thesis
      by (intro that [of None "st\<lparr>memory := (memory st)(b \<mapsto> ?hdr None)\<rparr>"])
        (auto simp: modifyUnitOpt_def)
  next
    case (snoc us' y)
    then have "us \<noteq> []" by simp
    with ul obtain f us0 where f: "mMemoryUnits st = Some f" and us0: "us = f # us0"
      by (cases us) auto
    with ul have "lastUnit (memory st) f = Some (Inr (last us))"
      using lastUnit_dlseg [of "memory st" None f us0] by simp
    with snoc have lu: "lastUnit (memory st) f = Some (Inr y)" by simp
    from ul snoc obtain pre: "dlseg ?U None (mMemoryUnits st) us' (Some y)"
      and ly: "?U y = Some (lastp None us', None)"
      by (auto simp: dlseg_snoc)
    from ly obtain w where w: "memory st y = Some w" "previousUnit w = lastp None us'"
      "nextUnit w = None"
      by (auto dest: unitLinks_SomeD)
    from dist snoc nin have ne: "y \<notin> set us'" "b \<noteq> y" "b \<notin> set us'" by auto
    let ?U' = "?U(b \<mapsto> (Some y, None), y \<mapsto> (lastp None us', Some b))"
    have "dlseg ?U' None (mMemoryUnits st) us' (Some y)"
      using pre ne by (subst dlseg_frame [where L = ?U]) auto
    with ne have "dlseg ?U' None (mMemoryUnits st) (us' @ [y, b]) None"
      by (auto simp: dlseg_append)
    with f lu w ne snoc show ?thesis
      by (intro that [of "Some y" "st\<lparr>memory := (memory st)(b \<mapsto> ?hdr (Some y),
             y \<mapsto> w\<lparr>nextUnit := Some b, isNextContiguousMemory := False\<rparr>)\<rparr>"])
        (auto simp: modifyUnitOpt_def modifyUnit_def upd_same freeLinks_Some fun_upd_twist)
  qed
  define st1' where "st1' = (if t = None then st1\<lparr>mMemoryUnits := Some b\<rparr> else st1)"
  have st1': "memory st1' = memory st1" "mFreeUnits st1' = mFreeUnits st1"
    "mAllocatedMemory st1' = mAllocatedMemory st1"
    "mNbTimesAllocateMethodCalled st1' = mNbTimesAllocateMethodCalled st1"
    "mMemoryUnits st1' = (if t = None then Some b else mMemoryUnits st1)"
    by (simp_all add: st1'_def)
  from rest1 obtain y where y: "memory st1' b = Some y"
    by (auto simp: st1')
  have "dlseg (freeLinks (memory st1')) None (mFreeUnits st1') fs None"
    using fl ninf by (subst dlseg_frame [where L = "freeLinks (memory st)"]) (auto simp: fl1 rest1 st1')
  from addToFreeUnits_list [OF this y ninf]
  obtain st2 where st2: "addToFreeUnits st1' b = Inr st2"
    "dlseg (freeLinks (memory st2)) None (mFreeUnits st2) (b # fs) None"
    "unitLinks (memory st2) = unitLinks (memory st1')"
    "attrs (memory st2) = attrs (memory st1')"
    "mMemoryUnits st2 = mMemoryUnits st1'"
    "mAllocatedMemory st2 = mAllocatedMemory st1'"
    "mNbTimesAllocateMethodCalled st2 = mNbTimesAllocateMethodCalled st1'"
    by blast
  have "reserve pf (Some b) st n =
      Some (Inr (st2\<lparr>mAllocatedMemory := mAllocatedMemory st2 + (?p + headerSize pf)\<rparr>))"
    using pos t st1 st2(1)
    by (simp add: reserve_def MemoryUnitHeader_ctor_def Let_def st1'_def less_max_iff_disj)
  with st2 ul1 at1 rest1 show ?thesis
    by (simp add: st1' del: dlseg.simps)
qed

subsection \<open>Sizes, contiguity and totals under updates of the memory\<close>

lemma Of_upd [simp]:
  "szOf (A(a \<mapsto> (sz, c, al))) x = (if x = a then sz else szOf A x)"
  "contigOf (A(a \<mapsto> (sz, c, al))) x = (if x = a then c else contigOf A x)"
  "allocOf (A(a \<mapsto> (sz, c, al))) x = (if x = a then al else allocOf A x)"
  by (simp_all add: szOf_def contigOf_def allocOf_def)

lemma Of_del [simp]:
  "szOf (A(a := None)) x = (if x = a then 0 else szOf A x)"
  "contigOf (A(a := None)) x = (if x = a then False else contigOf A x)"
  "allocOf (A(a := None)) x = (if x = a then False else allocOf A x)"
  by (simp_all add: szOf_def contigOf_def allocOf_def)

lemma Of_attrs:
  "m a = Some u \<Longrightarrow> szOf (attrs m) a = size_unit u"
  "m a = Some u \<Longrightarrow> contigOf (attrs m) a = isNextContiguousMemory u"
  "m a = Some u \<Longrightarrow> allocOf (attrs m) a = isAllocated u"
  by (simp_all add: szOf_def contigOf_def allocOf_def attrs_def)

lemma contigOK_frame:
  "(\<And>x. x \<in> set xs \<Longrightarrow> szOf A' x = szOf A x \<and> contigOf A' x = contigOf A x)
     \<Longrightarrow> contigOK hs A' xs = contigOK hs A xs"
  by (induction hs A xs rule: contigOK.induct) auto

lemma contigOK_butlast_frame:
  "(\<And>x. x \<in> set xs \<Longrightarrow> szOf A' x = szOf A x \<and> contigOf A' x = contigOf A x)
     \<Longrightarrow> contigOK hs A' (xs @ [y]) = contigOK hs A (xs @ [y])"
proof (induction xs)
  case Nil
  then show ?case by simp
next
  case (Cons x xs)
  then show ?case by (cases xs) auto
qed

lemma contigOK_append:
  "contigOK hs A (xs @ y # ys) \<longleftrightarrow> contigOK hs A (xs @ [y]) \<and> contigOK hs A (y # ys)"
proof (induction xs)
  case Nil
  then show ?case by simp
next
  case (Cons x xs)
  then show ?case by (cases xs) auto
qed

lemma contigOK_Cons: "contigOK hs A (x # xs) \<Longrightarrow> contigOK hs A xs"
  by (cases xs) auto

lemma totalOf_frame:
  "(\<And>x. x \<in> set xs \<Longrightarrow> szOf A' x = szOf A x) \<Longrightarrow> totalOf hs A' xs = totalOf hs A xs"
  unfolding totalOf_def by (induction xs) auto

lemma totalOf_simps [simp]:
  "totalOf hs A [] = 0"
  "totalOf hs A (x # xs) = hs + szOf A x + totalOf hs A xs"
  "totalOf hs A (xs @ ys) = totalOf hs A xs + totalOf hs A ys"
  by (simp_all add: totalOf_def)

lemma nAlloc_frame:
  "(\<And>x. x \<in> set xs \<Longrightarrow> allocOf A' x = allocOf A x) \<Longrightarrow> nAlloc A' xs = nAlloc A xs"
  unfolding nAlloc_def by (induction xs) auto

lemma nAlloc_simps [simp]:
  "nAlloc A [] = 0"
  "nAlloc A (x # xs) = (if allocOf A x then 1 else 0) + nAlloc A xs"
  "nAlloc A (xs @ ys) = nAlloc A xs + nAlloc A ys"
  by (simp_all add: nAlloc_def)

lemma totalOf_frame':
  "(\<And>x. x \<in> set xs \<Longrightarrow> A' x = A x) \<Longrightarrow> totalOf hs A' xs = totalOf hs A xs"
  by (rule totalOf_frame) (simp add: szOf_def)

lemma nAlloc_frame':
  "(\<And>x. x \<in> set xs \<Longrightarrow> A' x = A x) \<Longrightarrow> nAlloc A' xs = nAlloc A xs"
  by (rule nAlloc_frame) (simp add: allocOf_def)

lemma geomInv_fresh:
  assumes g: "geomInv hs A us" and a: "a \<in> set us" and s: "0 < s" "s + hs < szOf A a"
  shows "a + hs + s \<notin> set us"
proof
  assume n: "a + hs + s \<in> set us"
  from s have "a + hs + s \<noteq> a" by simp
  with g a n have "a + hs + szOf A a \<le> a + hs + s \<or> a + hs + s + hs + szOf A (a + hs + s) \<le> a"
    unfolding geomInv_def by (metis (no_types, lifting) add.assoc)
  with s show False by simp
qed

lemma geomInv_split:
  assumes g: "geomInv hs A (as @ a # bs)" and s: "0 < s" "s + hs < szOf A a"
    and al: "allocOf A a = al" and c: "contigOf A a = c"
  shows "geomInv hs (A(a \<mapsto> (s, True, al), a + hs + s \<mapsto> (szOf A a - s - hs, c, False)))
           (as @ a # (a + hs + s) # bs)"
proof -
  let ?n = "a + hs + s"
  let ?A = "A(a \<mapsto> (s, True, al), ?n \<mapsto> (szOf A a - s - hs, c, False))"
  from geomInv_fresh [OF g _ s] have nin: "?n \<notin> set as" "?n \<noteq> a" "?n \<notin> set bs" by auto
  from g have dist: "distinct (as @ a # bs)" and dom: "dom A = set (as @ a # bs)"
    and pos: "\<forall>x \<in> set (as @ a # bs). 0 < szOf A x"
    and dj: "\<forall>x \<in> set (as @ a # bs). \<forall>y \<in> set (as @ a # bs). x \<noteq> y \<longrightarrow>
           x + hs + szOf A x \<le> y \<or> y + hs + szOf A y \<le> x"
    and ck: "contigOK hs A (as @ a # bs)"
    by (auto simp: geomInv_def)
  have 1: "dom ?A = set (as @ a # ?n # bs)" using dom by auto
  have 2: "distinct (as @ a # ?n # bs)" using dist nin by auto
  have 3: "\<forall>x \<in> set (as @ a # ?n # bs). 0 < szOf ?A x" using pos s by auto
  have dja: "\<And>y. y \<in> set as \<union> set bs \<Longrightarrow> a + hs + szOf A a \<le> y \<or> y + hs + szOf A y \<le> a"
    using dj dist by auto
  have 4: "\<forall>x \<in> set (as @ a # ?n # bs). \<forall>y \<in> set (as @ a # ?n # bs). x \<noteq> y \<longrightarrow>
           x + hs + szOf ?A x \<le> y \<or> y + hs + szOf ?A y \<le> x"
  proof (intro ballI impI)
    fix x y assume x: "x \<in> set (as @ a # ?n # bs)" and y: "y \<in> set (as @ a # ?n # bs)"
      and xy: "x \<noteq> y"
    consider "x = a" | "x = ?n" | "x \<in> set as \<union> set bs" using x by auto
    then show "x + hs + szOf ?A x \<le> y \<or> y + hs + szOf ?A y \<le> x"
    proof cases
      case 1
      consider "y = ?n" | "y \<in> set as \<union> set bs" using y xy 1 by auto
      then show ?thesis
      proof cases
        case 1
        with \<open>x = a\<close> s nin show ?thesis by simp
      next
        case 2
        with dja [OF 2] \<open>x = a\<close> nin dist s show ?thesis by auto
      qed
    next
      case 2
      consider "y = a" | "y \<in> set as \<union> set bs" using y xy 2 by auto
      then show ?thesis
      proof cases
        case 1
        with \<open>x = ?n\<close> s nin show ?thesis by simp
      next
        case 2
        with dja [OF 2] \<open>x = ?n\<close> nin dist s show ?thesis by auto
      qed
    next
      case 3
      consider "y = a" | "y = ?n" | "y \<in> set as \<union> set bs" using y by auto
      then show ?thesis
      proof cases
        case 1
        with dja [OF 3] 3 nin dist s show ?thesis by auto
      next
        case 2
        with dja [OF 3] 3 nin dist s show ?thesis by auto
      next
        case 3
        with dj \<open>x \<in> set as \<union> set bs\<close> xy nin dist show ?thesis by auto
      qed
    qed
  qed
  have 5: "contigOK hs ?A (as @ a # ?n # bs)"
  proof -
    from ck have k1: "contigOK hs A (as @ [a])" and k2: "contigOK hs A (a # bs)"
      by (simp_all add: contigOK_append [of hs A as a bs])
    have "contigOK hs ?A (as @ [a]) = contigOK hs A (as @ [a])"
      using dist nin by (intro contigOK_butlast_frame) auto
    with k1 have a1: "contigOK hs ?A (as @ [a])" by simp
    have a2: "contigOK hs ?A (?n # bs)"
    proof (cases bs)
      case Nil
      then show ?thesis by simp
    next
      case (Cons z bs')
      have "contigOK hs ?A (z # bs') = contigOK hs A (z # bs')"
        using dist nin Cons by (intro contigOK_frame) auto
      with k2 Cons c s show ?thesis by auto
    qed
    have a3: "contigOK hs ?A (a # ?n # bs)" using a2 nin s by simp
    show ?thesis
      by (subst contigOK_append) (intro conjI a1 a3)
  qed
  from 1 2 3 4 5 show ?thesis unfolding geomInv_def by blast
qed

subsection \<open>The geometry under flag changes, merges and reservations\<close>

lemma geomInv_cong:
  assumes "dom A' = dom A" "\<And>x. szOf A' x = szOf A x" "\<And>x. contigOf A' x = contigOf A x"
  shows "geomInv hs A' us = geomInv hs A us"
proof -
  have "contigOK hs A' us = contigOK hs A us"
    by (intro contigOK_frame) (simp add: assms)
  then show ?thesis by (simp add: geomInv_def assms)
qed

lemma geomInv_flag:
  assumes g: "geomInv hs A us" and a: "a \<in> set us"
  shows "geomInv hs (A(a \<mapsto> (szOf A a, contigOf A a, al))) us"
proof -
  from g a have "a \<in> dom A" by (simp add: geomInv_def)
  then have "dom (A(a \<mapsto> (szOf A a, contigOf A a, al))) = dom A" by auto
  with g show ?thesis
    by (subst geomInv_cong [where A = A]) auto
qed

lemma geomInv_merge:
  assumes g: "geomInv hs A (as @ a # b # bs)" and c: "contigOf A a"
  shows "geomInv hs (A(a \<mapsto> (szOf A a + (hs + szOf A b), contigOf A b, al), b := None))
           (as @ a # bs)"
proof -
  let ?A = "A(a \<mapsto> (szOf A a + (hs + szOf A b), contigOf A b, al), b := None)"
  from g have dist: "distinct (as @ a # b # bs)" and dom: "dom A = set (as @ a # b # bs)"
    and pos: "\<forall>x \<in> set (as @ a # b # bs). 0 < szOf A x"
    and dj: "\<forall>x \<in> set (as @ a # b # bs). \<forall>y \<in> set (as @ a # b # bs). x \<noteq> y \<longrightarrow>
           x + hs + szOf A x \<le> y \<or> y + hs + szOf A y \<le> x"
    and ck: "contigOK hs A (as @ a # b # bs)"
    by (auto simp: geomInv_def)
  from ck have k1: "contigOK hs A (as @ [a])" and k2: "contigOK hs A (a # b # bs)"
    by (simp_all add: contigOK_append [of hs A as a "b # bs"])
  from k2 c have b: "b = a + hs + szOf A a" and k3: "contigOK hs A (b # bs)" by auto
  have 1: "dom ?A = set (as @ a # bs)" using dom dist by auto
  have 2: "distinct (as @ a # bs)" using dist by auto
  have 3: "\<forall>x \<in> set (as @ a # bs). 0 < szOf ?A x" using pos dist by auto
  have dja: "\<And>y. y \<in> set as \<union> set bs \<Longrightarrow> a + hs + szOf A a \<le> y \<or> y + hs + szOf A y \<le> a"
    using dj dist by auto
  have djb: "\<And>y. y \<in> set as \<union> set bs \<Longrightarrow> b + hs + szOf A b \<le> y \<or> y + hs + szOf A y \<le> b"
    using dj dist by auto
  have djab: "\<And>y. y \<in> set as \<union> set bs \<Longrightarrow>
      a + hs + (szOf A a + (hs + szOf A b)) \<le> y \<or> y + hs + szOf A y \<le> a"
  proof -
    fix y assume y: "y \<in> set as \<union> set bs"
    from pos y have "0 < szOf A y" by auto
    with dja [OF y] djb [OF y] b show
      "a + hs + (szOf A a + (hs + szOf A b)) \<le> y \<or> y + hs + szOf A y \<le> a"
      by auto
  qed
  have 4: "\<forall>x \<in> set (as @ a # bs). \<forall>y \<in> set (as @ a # bs). x \<noteq> y \<longrightarrow>
           x + hs + szOf ?A x \<le> y \<or> y + hs + szOf ?A y \<le> x"
  proof (intro ballI impI)
    fix x y assume x: "x \<in> set (as @ a # bs)" and y: "y \<in> set (as @ a # bs)"
      and xy: "x \<noteq> y"
    consider "x = a" "y \<in> set as \<union> set bs" | "y = a" "x \<in> set as \<union> set bs"
      | "x \<in> set as \<union> set bs" "y \<in> set as \<union> set bs"
      using x y xy by auto
    then show "x + hs + szOf ?A x \<le> y \<or> y + hs + szOf ?A y \<le> x"
    proof cases
      case 1
      with djab [OF 1(2)] dist show ?thesis by auto
    next
      case 2
      with djab [OF 2(2)] dist show ?thesis by auto
    next
      case 3
      with dj xy dist show ?thesis by auto
    qed
  qed
  have 5: "contigOK hs ?A (as @ a # bs)"
  proof -
    have "contigOK hs ?A (as @ [a]) = contigOK hs A (as @ [a])"
      using dist by (intro contigOK_butlast_frame) auto
    with k1 have a1: "contigOK hs ?A (as @ [a])" by simp
    have a2: "contigOK hs ?A (a # bs)"
    proof (cases bs)
      case Nil
      then show ?thesis by simp
    next
      case (Cons z bs')
      have "contigOK hs ?A (z # bs') = contigOK hs A (z # bs')"
        using dist Cons by (intro contigOK_frame) auto
      with k3 Cons b dist show ?thesis by auto
    qed
    show ?thesis
      by (subst contigOK_append) (intro conjI a1 a2)
  qed
  from 1 2 3 4 5 show ?thesis unfolding geomInv_def by blast
qed

lemma contigOK_snoc_new:
  assumes "contigOK hs A us" "us \<noteq> [] \<longrightarrow> \<not> contigOf A (last us)"
  shows "contigOK hs A (us @ [b])"
  using assms
proof (induction hs A us rule: contigOK.induct)
  case (1 hs A x y ys)
  then show ?case by auto
next
  case (2 hs A x)
  then show ?case by simp
next
  case (3 hs A)
  then show ?case by simp
qed

lemma geomInv_reserve:
  assumes g: "geomInv hs A us" and p: "0 < p"
    and fresh: "\<forall>x \<in> set us. x + hs + szOf A x \<le> b \<or> b + hs + p \<le> x"
    and A': "A' = (if us = [] then A else A(last us \<mapsto> (szOf A (last us), False, allocOf A (last us))))
                   (b \<mapsto> (p, False, False))"
  shows "geomInv hs A' (us @ [b])"
proof -
  from g have dist: "distinct us" and dom: "dom A = set us"
    and pos: "\<forall>x \<in> set us. 0 < szOf A x"
    and dj: "\<forall>x \<in> set us. \<forall>y \<in> set us. x \<noteq> y \<longrightarrow>
           x + hs + szOf A x \<le> y \<or> y + hs + szOf A y \<le> x"
    and ck: "contigOK hs A us"
    by (auto simp: geomInv_def)
  have nin: "b \<notin> set us"
  proof
    assume "b \<in> set us"
    with fresh pos p show False by force
  qed
  have sz: "\<And>x. x \<in> set us \<Longrightarrow> szOf A' x = szOf A x"
    using nin by (auto simp: A')
  have szb: "szOf A' b = p" by (simp add: A')
  have 1: "dom A' = set (us @ [b])" using dom by (auto simp: A')
  have 2: "distinct (us @ [b])" using dist nin by simp
  have 3: "\<forall>x \<in> set (us @ [b]). 0 < szOf A' x" using pos p sz szb by auto
  have 4: "\<forall>x \<in> set (us @ [b]). \<forall>y \<in> set (us @ [b]). x \<noteq> y \<longrightarrow>
           x + hs + szOf A' x \<le> y \<or> y + hs + szOf A' y \<le> x"
    using dj fresh sz szb by auto
  have 5: "contigOK hs A' (us @ [b])"
  proof (cases us rule: rev_cases)
    case Nil
    then show ?thesis by simp
  next
    case (snoc us' y)
    let ?B = "A(y \<mapsto> (szOf A y, False, allocOf A y))"
    from ck snoc have "contigOK hs A (us' @ [y])" by simp
    moreover have "contigOK hs ?B (us' @ [y]) = contigOK hs A (us' @ [y])"
      using dist snoc by (intro contigOK_butlast_frame) auto
    ultimately have "contigOK hs ?B (us' @ [y])" by simp
    then have "contigOK hs ?B ((us' @ [y]) @ [b])"
      by (rule contigOK_snoc_new) simp
    moreover have "contigOK hs A' ((us' @ [y]) @ [b]) = contigOK hs ?B ((us' @ [y]) @ [b])"
      using nin snoc by (intro contigOK_butlast_frame) (auto simp: A')
    ultimately show ?thesis using snoc by simp
  qed
  from 1 2 3 4 5 show ?thesis unfolding geomInv_def by blast
qed

subsection \<open>\<open>splitMemoryUnit\<close> preserves the invariant\<close>

lemma flagsOK_distinct_mem:
  "flagsOK A us fs \<Longrightarrow> a \<in> set fs \<longleftrightarrow> a \<in> set us \<and> \<not> allocOf A a"
  by (auto simp: flagsOK_def)

lemma attrs_SomeD:
  "attrs m a = Some (sz, c, al) \<Longrightarrow>
     \<exists>u. m a = Some u \<and> size_unit u = sz \<and> isNextContiguousMemory u = c \<and> isAllocated u = al"
  by (auto simp: attrs_def)

lemma structInv_dom: "structInv pf st us fs \<Longrightarrow> dom (memory st) = set us"
  by (auto simp: structInv_def geomInv_def)

lemma structInv_distinct: "structInv pf st us fs \<Longrightarrow> distinct us \<and> distinct fs"
  by (auto simp: structInv_def dest: dlseg_distinct)

lemma structInv_free:
  assumes "structInv pf st us fs" "memory st a = Some u"
  shows "a \<in> set fs \<longleftrightarrow> \<not> isAllocated u"
proof -
  from assms have "a \<in> set us" by (auto dest: structInv_dom)
  moreover from assms have "a \<in> set fs \<longleftrightarrow> a \<in> set us \<and> \<not> allocOf (attrs (memory st)) a"
    by (simp add: structInv_def flagsOK_def)
  ultimately show ?thesis using assms(2) by (simp add: Of_attrs)
qed

lemma splitMemoryUnit_inv:
  assumes inv: "structInv pf st us fs" and u: "memory st a = Some u"
    and s: "0 < s" "s + headerSize pf < size_unit u"
  shows "\<exists>st' as bs. splitMemoryUnit pf st a s = Inr st' \<and> us = as @ a # bs
           \<and> structInv pf st' (as @ a # (a + headerSize pf + s) # bs) ((a + headerSize pf + s) # fs)
           \<and> attrs (memory st') = (attrs (memory st))
                (a \<mapsto> (s, True, isAllocated u),
                 a + headerSize pf + s \<mapsto> (size_unit u - s - headerSize pf, isNextContiguousMemory u, False))
           \<and> nAlloc (attrs (memory st')) (as @ a # (a + headerSize pf + s) # bs)
               = nAlloc (attrs (memory st)) us
           \<and> mNbTimesAllocateMethodCalled st' = mNbTimesAllocateMethodCalled st"
proof -
  let ?hs = "headerSize pf"
  let ?A = "attrs (memory st)"
  let ?n = "a + ?hs + s"
  from inv have ul: "dlseg (unitLinks (memory st)) None (mMemoryUnits st) us None"
    and fl: "dlseg (freeLinks (memory st)) None (mFreeUnits st) fs None"
    and g: "geomInv ?hs ?A us" and fo: "flagsOK ?A us fs"
    and tot: "totalOf ?hs ?A us = mAllocatedMemory st"
    by (auto simp: structInv_def)
  from structInv_dom [OF inv] u have "a \<in> set us" by auto
  then obtain as bs where us: "us = as @ a # bs" by (auto dest: split_list)
  from g have dist: "distinct us" by (simp add: geomInv_def)
  from u have oa: "szOf ?A a = size_unit u" "contigOf ?A a = isNextContiguousMemory u"
    "allocOf ?A a = isAllocated u" by (simp_all add: Of_attrs)
  from geomInv_fresh [OF g \<open>a \<in> set us\<close> s(1)] s(2) oa
  have nin: "?n \<notin> set us" by simp
  with structInv_dom [OF inv] have new: "?n \<notin> dom (memory st)" by simp
  from splitMemoryUnit_lists [OF ul [unfolded us] fl u new s(2)]
  obtain st' where st': "splitMemoryUnit pf st a s = Inr st'"
    "dlseg (unitLinks (memory st')) None (mMemoryUnits st') (as @ a # ?n # bs) None"
    "dlseg (freeLinks (memory st')) None (mFreeUnits st') (?n # fs) None"
    "attrs (memory st') = ?A(a \<mapsto> (s, True, isAllocated u),
         ?n \<mapsto> (size_unit u - s - ?hs, isNextContiguousMemory u, False))"
    "mMemoryUnits st' = mMemoryUnits st" "mAllocatedMemory st' = mAllocatedMemory st"
    "mNbTimesAllocateMethodCalled st' = mNbTimesAllocateMethodCalled st"
    by blast
  let ?A' = "attrs (memory st')"
  from geomInv_split [OF g [unfolded us] s(1), of "isAllocated u" "isNextContiguousMemory u"] s(2) oa
  have g': "geomInv ?hs ?A' (as @ a # ?n # bs)"
    by (simp add: st'(4))
  from nin us dist have ne: "?n \<noteq> a" "?n \<notin> set as" "?n \<notin> set bs" "a \<notin> set as" "a \<notin> set bs"
    by auto
  have fo': "flagsOK ?A' (as @ a # ?n # bs) (?n # fs)"
    unfolding flagsOK_def
  proof
    fix x
    from fo have "x \<in> set fs \<longleftrightarrow> x \<in> set us \<and> \<not> allocOf ?A x"
      by (simp add: flagsOK_def)
    with ne nin oa s show "x \<in> set (?n # fs) \<longleftrightarrow>
        x \<in> set (as @ a # ?n # bs) \<and> \<not> allocOf ?A' x"
      by (cases "x = a"; cases "x = ?n") (simp_all add: st'(4) us)
  qed
  have fr: "\<And>x. x \<in> set as \<union> set bs \<Longrightarrow> ?A' x = ?A x"
    using ne by (auto simp: st'(4))
  have "totalOf ?hs ?A' as = totalOf ?hs ?A as" "totalOf ?hs ?A' bs = totalOf ?hs ?A bs"
    by (rule totalOf_frame', rule fr, simp)+
  with tot s oa ne have tot': "totalOf ?hs ?A' (as @ a # ?n # bs) = mAllocatedMemory st'"
    by (simp add: us st'(4) st'(6))
  have "nAlloc ?A' as = nAlloc ?A as" "nAlloc ?A' bs = nAlloc ?A bs"
    by (rule nAlloc_frame', rule fr, simp)+
  with oa ne s have na: "nAlloc ?A' (as @ a # ?n # bs) = nAlloc ?A us"
    by (simp add: us st'(4))
  from st' g' fo' tot' na us show ?thesis
    unfolding structInv_def by blast
qed

subsection \<open>\<open>mergeUnits\<close> preserves the invariant\<close>

lemma mergeUnits_inv:
  assumes inv: "structInv pf st (as @ a # b # bs) fs"
    and u1: "memory st a = Some u1" and u2: "memory st b = Some u2"
    and free: "\<not> isAllocated u1" "\<not> isAllocated u2"
    and contig: "isNextContiguousMemory u1"
  shows "\<exists>st'. mergeUnits pf st a b = Inr st'
           \<and> structInv pf st' (as @ a # bs) (remove1 b fs)
           \<and> attrs (memory st') = (attrs (memory st))
                (a \<mapsto> (size_unit u1 + (headerSize pf + size_unit u2), isNextContiguousMemory u2, False),
                 b := None)
           \<and> nAlloc (attrs (memory st')) (as @ a # bs) = nAlloc (attrs (memory st)) (as @ a # b # bs)
           \<and> mNbTimesAllocateMethodCalled st' = mNbTimesAllocateMethodCalled st"
proof -
  let ?hs = "headerSize pf"
  let ?A = "attrs (memory st)"
  let ?us = "as @ a # b # bs"
  from inv have ul: "dlseg (unitLinks (memory st)) None (mMemoryUnits st) ?us None"
    and fl: "dlseg (freeLinks (memory st)) None (mFreeUnits st) fs None"
    and g: "geomInv ?hs ?A ?us" and fo: "flagsOK ?A ?us fs"
    and tot: "totalOf ?hs ?A ?us = mAllocatedMemory st"
    by (auto simp: structInv_def)
  from g have dist: "distinct ?us" by (simp add: geomInv_def)
  from dlseg_distinct [OF fl] have distf: "distinct fs" by simp
  from u1 have oa: "szOf ?A a = size_unit u1" "contigOf ?A a = isNextContiguousMemory u1"
    "allocOf ?A a = isAllocated u1" by (simp_all add: Of_attrs)
  from u2 have ob: "szOf ?A b = size_unit u2" "contigOf ?A b = isNextContiguousMemory u2"
    "allocOf ?A b = isAllocated u2" by (simp_all add: Of_attrs)
  from fo free ob have "b \<in> set fs" by (simp add: flagsOK_def)
  then obtain fa fb where fs: "fs = fa @ b # fb" by (auto dest: split_list)
  with distf have rm: "remove1 b fs = fa @ fb"
    by (simp add: remove1_append)
  from mergeUnits_lists [OF ul fl [unfolded fs] u1 u2 free contig, of pf]
  obtain st' where st': "mergeUnits pf st a b = Inr st'"
    "dlseg (unitLinks (memory st')) None (mMemoryUnits st') (as @ a # bs) None"
    "dlseg (freeLinks (memory st')) None (mFreeUnits st') (fa @ fb) None"
    "attrs (memory st') = ?A(a \<mapsto> (size_unit u1 + (?hs + size_unit u2), isNextContiguousMemory u2, False),
         b := None)"
    "mMemoryUnits st' = mMemoryUnits st" "mAllocatedMemory st' = mAllocatedMemory st"
    "mNbTimesAllocateMethodCalled st' = mNbTimesAllocateMethodCalled st"
    by blast
  let ?A' = "attrs (memory st')"
  from geomInv_merge [OF g, of False] contig oa ob
  have g': "geomInv ?hs ?A' (as @ a # bs)"
    by (simp add: st'(4))
  from dist have ne: "a \<noteq> b" "a \<notin> set as" "b \<notin> set as" "a \<notin> set bs" "b \<notin> set bs"
    by auto
  have fo': "flagsOK ?A' (as @ a # bs) (fa @ fb)"
    unfolding flagsOK_def
  proof
    fix x
    from fo have "x \<in> set fs \<longleftrightarrow> x \<in> set ?us \<and> \<not> allocOf ?A x"
      by (simp add: flagsOK_def)
    with ne oa ob free distf show "x \<in> set (fa @ fb) \<longleftrightarrow>
        x \<in> set (as @ a # bs) \<and> \<not> allocOf ?A' x"
      by (cases "x = a"; cases "x = b") (auto simp: st'(4) fs)
  qed
  have fr: "\<And>x. x \<in> set as \<union> set bs \<Longrightarrow> ?A' x = ?A x"
    using ne by (auto simp: st'(4))
  have "totalOf ?hs ?A' as = totalOf ?hs ?A as" "totalOf ?hs ?A' bs = totalOf ?hs ?A bs"
    by (rule totalOf_frame', rule fr, simp)+
  with tot oa ob ne have tot': "totalOf ?hs ?A' (as @ a # bs) = mAllocatedMemory st'"
    by (simp add: st'(4) st'(6))
  have "nAlloc ?A' as = nAlloc ?A as" "nAlloc ?A' bs = nAlloc ?A bs"
    by (rule nAlloc_frame', rule fr, simp)+
  with oa ob ne free have na: "nAlloc ?A' (as @ a # bs) = nAlloc ?A ?us"
    by (simp add: st'(4))
  from st' g' fo' tot' na rm show ?thesis
    unfolding structInv_def by auto
qed

subsection \<open>Taking a unit out of the Free List\<close>

lemma setFlag_lists:
  assumes u: "memory st a = Some u"
  shows "\<exists>st'. modifyUnit st a (\<lambda>v. v\<lparr>isAllocated := b\<rparr>) = Inr st'
           \<and> unitLinks (memory st') = unitLinks (memory st)
           \<and> freeLinks (memory st') = freeLinks (memory st)
           \<and> attrs (memory st') = (attrs (memory st))
                (a \<mapsto> (size_unit u, isNextContiguousMemory u, b))
           \<and> mMemoryUnits st' = mMemoryUnits st \<and> mFreeUnits st' = mFreeUnits st
           \<and> mAllocatedMemory st' = mAllocatedMemory st
           \<and> mNbTimesAllocateMethodCalled st' = mNbTimesAllocateMethodCalled st"
  using u by (simp add: modifyUnit_def upd_same unitLinks_Some freeLinks_Some)

lemma nAlloc_flag:
  assumes "distinct us" "a \<in> set us"
  shows "int (nAlloc (A(a \<mapsto> (sz, c, b))) us) =
           int (nAlloc A us) + (if b then 1 else 0) - (if allocOf A a then 1 else 0)"
proof -
  from assms obtain as bs where us: "us = as @ a # bs" by (auto dest: split_list)
  with assms have ne: "a \<notin> set as" "a \<notin> set bs" by auto
  have "nAlloc (A(a \<mapsto> (sz, c, b))) as = nAlloc A as" "nAlloc (A(a \<mapsto> (sz, c, b))) bs = nAlloc A bs"
    using ne by (auto intro!: nAlloc_frame')
  then show ?thesis by (simp add: us)
qed

lemma totalOf_flag:
  assumes "distinct us" "a \<in> set us"
  shows "totalOf hs (A(a \<mapsto> (szOf A a, c, b))) us = totalOf hs A us"
  by (rule totalOf_frame) simp

lemma takeUnit_inv:
  assumes inv: "structInv pf st us fs" and u: "memory st a = Some u" and free: "\<not> isAllocated u"
  shows "\<exists>st2 st3. removeFromFreeUnits st a = Inr st2
           \<and> modifyUnit st2 a (\<lambda>v. v\<lparr>isAllocated := True\<rparr>) = Inr st3
           \<and> structInv pf st3 us (remove1 a fs)
           \<and> attrs (memory st3) = (attrs (memory st))
                (a \<mapsto> (size_unit u, isNextContiguousMemory u, True))
           \<and> int (nAlloc (attrs (memory st3)) us) = int (nAlloc (attrs (memory st)) us) + 1
           \<and> mNbTimesAllocateMethodCalled st3 = mNbTimesAllocateMethodCalled st"
proof -
  let ?hs = "headerSize pf"
  let ?A = "attrs (memory st)"
  from inv have ul: "dlseg (unitLinks (memory st)) None (mMemoryUnits st) us None"
    and fl: "dlseg (freeLinks (memory st)) None (mFreeUnits st) fs None"
    and g: "geomInv ?hs ?A us" and fo: "flagsOK ?A us fs"
    and tot: "totalOf ?hs ?A us = mAllocatedMemory st"
    by (auto simp: structInv_def)
  from g have dist: "distinct us" by (simp add: geomInv_def)
  from dlseg_distinct [OF fl] have distf: "distinct fs" by simp
  from structInv_dom [OF inv] u have ain: "a \<in> set us" by auto
  from u have oa: "szOf ?A a = size_unit u" "contigOf ?A a = isNextContiguousMemory u"
    "allocOf ?A a = isAllocated u" by (simp_all add: Of_attrs)
  from structInv_free [OF inv u] free have "a \<in> set fs" by simp
  then obtain fa fb where fs: "fs = fa @ a # fb" by (auto dest: split_list)
  with distf have rm: "remove1 a fs = fa @ fb" and nf: "a \<notin> set fa" "a \<notin> set fb"
    by (simp_all add: remove1_append)
  from removeFromFreeUnits_list [OF fl [unfolded fs]]
  obtain st2 where st2: "removeFromFreeUnits st a = Inr st2"
    "dlseg (freeLinks (memory st2)) None (mFreeUnits st2) (fa @ fb) None"
    "unitLinks (memory st2) = unitLinks (memory st)"
    "attrs (memory st2) = ?A"
    "mMemoryUnits st2 = mMemoryUnits st" "mAllocatedMemory st2 = mAllocatedMemory st"
    "mNbTimesAllocateMethodCalled st2 = mNbTimesAllocateMethodCalled st"
    by blast
  from u st2(4) obtain u2 where u2: "memory st2 a = Some u2" "size_unit u2 = size_unit u"
    "isNextContiguousMemory u2 = isNextContiguousMemory u"
    by (metis attrs_Some attrs_SomeD)
  from setFlag_lists [OF u2(1), of True]
  obtain st3 where st3: "modifyUnit st2 a (\<lambda>v. v\<lparr>isAllocated := True\<rparr>) = Inr st3"
    "unitLinks (memory st3) = unitLinks (memory st2)"
    "freeLinks (memory st3) = freeLinks (memory st2)"
    "attrs (memory st3) = (attrs (memory st2))(a \<mapsto> (size_unit u2, isNextContiguousMemory u2, True))"
    "mMemoryUnits st3 = mMemoryUnits st2" "mFreeUnits st3 = mFreeUnits st2"
    "mAllocatedMemory st3 = mAllocatedMemory st2"
    "mNbTimesAllocateMethodCalled st3 = mNbTimesAllocateMethodCalled st2"
    by blast
  have at3: "attrs (memory st3) = ?A(a \<mapsto> (size_unit u, isNextContiguousMemory u, True))"
    by (simp add: st3(4) st2(4) u2)
  have g3: "geomInv ?hs (attrs (memory st3)) us"
    using geomInv_flag [OF g ain, of True] by (simp add: at3 oa)
  have fo3: "flagsOK (attrs (memory st3)) us (fa @ fb)"
    unfolding flagsOK_def
  proof
    fix x
    from fo have "x \<in> set fs \<longleftrightarrow> x \<in> set us \<and> \<not> allocOf ?A x"
      by (simp add: flagsOK_def)
    with nf ain show "x \<in> set (fa @ fb) \<longleftrightarrow> x \<in> set us \<and> \<not> allocOf (attrs (memory st3)) x"
      by (cases "x = a") (auto simp: at3 fs)
  qed
  have tot3: "totalOf ?hs (attrs (memory st3)) us = mAllocatedMemory st3"
    using totalOf_flag [OF dist ain, of ?hs ?A] tot by (simp add: at3 oa st3 st2)
  have na3: "int (nAlloc (attrs (memory st3)) us) = int (nAlloc ?A us) + 1"
    using nAlloc_flag [OF dist ain, of ?A _ _ True] free by (simp add: at3 oa)
  from st2 st3 g3 fo3 tot3 na3 at3 rm ul show ?thesis
    unfolding structInv_def by auto
qed

subsection \<open>The chosen unit of \<open>allocate\<close>\<close>

lemma structInv_counter [simp]:
  "structInv pf (st\<lparr>mNbTimesAllocateMethodCalled := n\<rparr>) us fs = structInv pf st us fs"
  by (simp add: structInv_def)

lemma fits_claimed: "fits pf s a u \<Longrightarrow> s + alignmentPadding pf a \<le> size_unit u"
  by (auto simp: fits_def)

lemma allocateUnit_inv:
  assumes inv: "heapInv pf st us fs" and u: "memory st a = Some u" and free: "\<not> isAllocated u"
    and s: "0 < s" and fit: "fits pf s a u"
  shows "\<exists>st' us' fs' u'. allocateUnit pf st a s = Inr (computeAlignedAddress pf (a + headerSize pf), st')
           \<and> heapInv pf st' us' fs'
           \<and> memory st' a = Some u' \<and> isAllocated u'
           \<and> s + alignmentPadding pf a \<le> size_unit u'
           \<and> mNbTimesAllocateMethodCalled st' = mNbTimesAllocateMethodCalled st + 1"
proof -
  let ?hs = "headerSize pf"
  let ?c = "s + alignmentPadding pf a"
  from inv have sinv: "structInv pf st us fs"
    and cnt: "mNbTimesAllocateMethodCalled st = int (nAlloc (attrs (memory st)) us)"
    by (simp_all add: heapInv_def)
  from fits_claimed [OF fit] have le: "?c \<le> size_unit u" .
  obtain st1 us1 fs1 u1 where st1:
    "(if size_unit u - ?c > ?hs then splitMemoryUnit pf st a ?c else Inr st) = Inr st1"
    "structInv pf st1 us1 fs1" "memory st1 a = Some u1" "\<not> isAllocated u1"
    "?c \<le> size_unit u1"
    "nAlloc (attrs (memory st1)) us1 = nAlloc (attrs (memory st)) us"
    "mNbTimesAllocateMethodCalled st1 = mNbTimesAllocateMethodCalled st"
  proof (cases "size_unit u - ?c > ?hs")
    case True
    with s have c: "0 < ?c" "?c + ?hs < size_unit u" by auto
    from splitMemoryUnit_inv [OF sinv u c]
    obtain st' as bs where sp: "splitMemoryUnit pf st a ?c = Inr st'" "us = as @ a # bs"
      "structInv pf st' (as @ a # (a + ?hs + ?c) # bs) ((a + ?hs + ?c) # fs)"
      "attrs (memory st') = (attrs (memory st))
                (a \<mapsto> (?c, True, isAllocated u),
                 a + ?hs + ?c \<mapsto> (size_unit u - ?c - ?hs, isNextContiguousMemory u, False))"
      "nAlloc (attrs (memory st')) (as @ a # (a + ?hs + ?c) # bs) = nAlloc (attrs (memory st)) us"
      "mNbTimesAllocateMethodCalled st' = mNbTimesAllocateMethodCalled st"
      by blast
    have "attrs (memory st') a = Some (?c, True, isAllocated u)"
      unfolding sp(4) using c by auto
    then obtain u1 where "memory st' a = Some u1" "size_unit u1 = ?c" "isAllocated u1 = isAllocated u"
      by (auto dest: attrs_SomeD)
    with sp free True show ?thesis
      by (intro that [of st' "as @ a # (a + ?hs + ?c) # bs" "(a + ?hs + ?c) # fs" u1]) simp_all
  next
    case False
    with sinv u free le show ?thesis
      by (intro that [of st us fs u]) simp_all
  qed
  from takeUnit_inv [OF st1(2,3,4)]
  obtain st2 st3 where tk: "removeFromFreeUnits st1 a = Inr st2"
    "modifyUnit st2 a (\<lambda>v. v\<lparr>isAllocated := True\<rparr>) = Inr st3"
    "structInv pf st3 us1 (remove1 a fs1)"
    "attrs (memory st3) = (attrs (memory st1))
                (a \<mapsto> (size_unit u1, isNextContiguousMemory u1, True))"
    "int (nAlloc (attrs (memory st3)) us1) = int (nAlloc (attrs (memory st1)) us1) + 1"
    "mNbTimesAllocateMethodCalled st3 = mNbTimesAllocateMethodCalled st1"
    by blast
  let ?st' = "st3\<lparr>mNbTimesAllocateMethodCalled := mNbTimesAllocateMethodCalled st3 + 1\<rparr>"
  have res: "allocateUnit pf st a s = Inr (computeAlignedAddress pf (a + ?hs), ?st')"
    using u st1(1) tk(1,2) by (simp add: allocateUnit_def Let_def)
  have "attrs (memory st3) a = Some (size_unit u1, isNextContiguousMemory u1, True)"
    by (simp add: tk(4))
  then obtain u' where u': "memory st3 a = Some u'" "size_unit u' = size_unit u1" "isAllocated u'"
    by (auto dest: attrs_SomeD)
  have "heapInv pf ?st' us1 (remove1 a fs1)"
    using tk st1 cnt by (simp add: heapInv_def)
  with res u' st1(5,7) tk(6) show ?thesis
    by (intro exI [of _ ?st'] exI [of _ us1] exI [of _ "remove1 a fs1"] exI [of _ u']) simp
qed

subsection \<open>The search and \<open>reserve\<close> on states that satisfy the invariant\<close>

lemma findFirstFit_dlseg:
  "dlseg (freeLinks m) q p fs None \<Longrightarrow>
     findFirstFit fit m p = Some (Inr (find (\<lambda>a. fit a (the (m a))) fs))"
proof (induction fs arbitrary: q p)
  case Nil
  then show ?case by (subst findFirstFit.simps) simp
next
  case (Cons x xs)
  from Cons.prems obtain u where "p = Some x" "m x = Some u"
    "dlseg (freeLinks m) (Some x) (nextFreeUnit u) xs None"
    by (auto simp: freeLinks_def split: option.splits)
  with Cons.IH [of "Some x" "nextFreeUnit u"] show ?case
    by (subst findFirstFit.simps) simp
qed

lemma reserve_inv:
  assumes inv: "structInv pf st us fs" and fresh: "blockFresh pf st (Some b) n"
    and pos: "0 < max n (INIT_ALLOCATED_SIZE pf)"
  shows "\<exists>st'. reserve pf (Some b) st n = Some (Inr st')
           \<and> structInv pf st' (us @ [b]) (b # fs)
           \<and> attrs (memory st') b = Some (max n (INIT_ALLOCATED_SIZE pf), False, False)
           \<and> nAlloc (attrs (memory st')) (us @ [b]) = nAlloc (attrs (memory st)) us
           \<and> mNbTimesAllocateMethodCalled st' = mNbTimesAllocateMethodCalled st"
proof -
  let ?hs = "headerSize pf"
  let ?A = "attrs (memory st)"
  let ?p = "max n (INIT_ALLOCATED_SIZE pf)"
  from inv have ul: "dlseg (unitLinks (memory st)) None (mMemoryUnits st) us None"
    and fl: "dlseg (freeLinks (memory st)) None (mFreeUnits st) fs None"
    and g: "geomInv ?hs ?A us" and fo: "flagsOK ?A us fs"
    and tot: "totalOf ?hs ?A us = mAllocatedMemory st"
    by (auto simp: structInv_def)
  from g have dist: "distinct us" and dom: "dom (memory st) = set us"
    and posu: "\<forall>x \<in> set us. 0 < szOf ?A x"
    by (simp_all add: geomInv_def)
  have fr: "\<forall>x \<in> set us. x + ?hs + szOf ?A x \<le> b \<or> b + ?hs + ?p \<le> x"
  proof
    fix x assume "x \<in> set us"
    with dom obtain u where "memory st x = Some u" by auto
    with fresh show "x + ?hs + szOf ?A x \<le> b \<or> b + ?hs + ?p \<le> x"
      by (auto simp: blockFresh_def Of_attrs)
  qed
  have nin: "b \<notin> set us"
  proof
    assume "b \<in> set us"
    with fr posu pos show False by force
  qed
  with dom have new: "b \<notin> dom (memory st)" by simp
  from reserve_lists [OF ul fl new pos]
  obtain st' where st': "reserve pf (Some b) st n = Some (Inr st')"
    "dlseg (unitLinks (memory st')) None (mMemoryUnits st') (us @ [b]) None"
    "dlseg (freeLinks (memory st')) None (mFreeUnits st') (b # fs) None"
    "us = [] \<longrightarrow> attrs (memory st') = ?A(b \<mapsto> (?p, False, False))"
    "us \<noteq> [] \<longrightarrow> (\<exists>ut. memory st (last us) = Some ut \<and> attrs (memory st') =
                 ?A(last us \<mapsto> (size_unit ut, False, isAllocated ut), b \<mapsto> (?p, False, False)))"
    "mAllocatedMemory st' = mAllocatedMemory st + (?p + ?hs)"
    "mNbTimesAllocateMethodCalled st' = mNbTimesAllocateMethodCalled st"
    by blast
  let ?A' = "attrs (memory st')"
  have A': "?A' = (if us = [] then ?A
                   else ?A(last us \<mapsto> (szOf ?A (last us), False, allocOf ?A (last us))))
                   (b \<mapsto> (?p, False, False))"
    using st'(4,5) by (auto simp: Of_attrs)
  from geomInv_reserve [OF g pos fr A'] have g': "geomInv ?hs ?A' (us @ [b])" .
  have same: "\<And>x. x \<in> set us \<Longrightarrow> szOf ?A' x = szOf ?A x \<and> allocOf ?A' x = allocOf ?A x"
    using nin by (auto simp: A')
  have fo': "flagsOK ?A' (us @ [b]) (b # fs)"
    unfolding flagsOK_def
  proof
    fix x
    from fo have "x \<in> set fs \<longleftrightarrow> x \<in> set us \<and> \<not> allocOf ?A x"
      by (simp add: flagsOK_def)
    with nin same [of x] show "x \<in> set (b # fs) \<longleftrightarrow> x \<in> set (us @ [b]) \<and> \<not> allocOf ?A' x"
      by (cases "x = b") (auto simp: A')
  qed
  have "totalOf ?hs ?A' us = totalOf ?hs ?A us"
    by (rule totalOf_frame) (simp add: same)
  with tot have tot': "totalOf ?hs ?A' (us @ [b]) = mAllocatedMemory st'"
    by (simp add: st'(6)) (simp add: A')
  have "nAlloc ?A' us = nAlloc ?A us"
    by (rule nAlloc_frame) (simp add: same)
  then have na: "nAlloc ?A' (us @ [b]) = nAlloc ?A us"
    by simp (simp add: A')
  have "?A' b = Some (?p, False, False)" by (simp add: A')
  with st' g' fo' tot' na show ?thesis
    unfolding structInv_def by auto
qed

subsection \<open>\<open>allocate\<close> preserves the invariant\<close>

lemma heapInv_freeD:
  assumes "heapInv pf st us fs" "a \<in> set fs"
  shows "\<exists>u. memory st a = Some u \<and> \<not> isAllocated u"
proof -
  from assms have s: "structInv pf st us fs" by (simp add: heapInv_def)
  then have "dlseg (freeLinks (memory st)) None (mFreeUnits st) fs None"
    by (simp add: structInv_def)
  from dlseg_subset_dom [OF this] assms(2) obtain u where u: "memory st a = Some u" by auto
  with structInv_free [OF s u] assms(2) show ?thesis by simp
qed

lemma allocate_search:
  assumes inv: "heapInv pf st us fs"
  shows "findFirstFit (fits pf s) (memory st) (mFreeUnits st)
           = Some (Inr (find (\<lambda>a. fits pf s a (the (memory st a))) fs))"
  using inv by (intro findFirstFit_dlseg [where q = None]) (simp add: heapInv_def structInv_def)

lemma allocate_fit:
  assumes inv: "heapInv pf st us fs" and s: "0 < s"
    and f: "find (\<lambda>a. fits pf s a (the (memory st a))) fs = Some a"
  shows "\<exists>st' us' fs' u'. allocate pf blk st s
             = Some (Inr (computeAlignedAddress pf (a + headerSize pf), st'))
           \<and> heapInv pf st' us' fs'
           \<and> memory st' a = Some u' \<and> isAllocated u'
           \<and> s + alignmentPadding pf a \<le> size_unit u'
           \<and> mNbTimesAllocateMethodCalled st' = mNbTimesAllocateMethodCalled st + 1"
proof -
  from f have "a \<in> set fs" and fit: "fits pf s a (the (memory st a))"
    by (auto simp: find_Some_iff)
  from heapInv_freeD [OF inv this(1)] obtain u where u: "memory st a = Some u" "\<not> isAllocated u"
    by blast
  from allocateUnit_inv [OF inv u s] fit u
  obtain st' us' fs' u' where
    "allocateUnit pf st a s = Inr (computeAlignedAddress pf (a + headerSize pf), st')"
    "heapInv pf st' us' fs'" "memory st' a = Some u'" "isAllocated u'"
    "s + alignmentPadding pf a \<le> size_unit u'"
    "mNbTimesAllocateMethodCalled st' = mNbTimesAllocateMethodCalled st + 1"
    by auto
  moreover have "allocate pf blk st s = Some (allocateUnit pf st a s)"
    using s f by (simp add: allocate_def allocate_search [OF inv])
  ultimately show ?thesis by auto
qed

lemma allocate_grow:
  assumes inv: "heapInv pf st us fs" and s: "0 < s"
    and f: "find (\<lambda>a. fits pf s a (the (memory st a))) fs = None"
    and fresh: "blockFresh pf st (Some b) s"
  shows "\<exists>st1. reserve pf (Some b) st s = Some (Inr st1)
           \<and> heapInv pf st1 (us @ [b]) (b # fs)
           \<and> mNbTimesAllocateMethodCalled st1 = mNbTimesAllocateMethodCalled st
           \<and> allocate pf (Some b) st s =
               (case find (\<lambda>a. fits pf s a (the (memory st1 a))) (b # fs) of
                  Some a \<Rightarrow> Some (allocateUnit pf st1 a s)
                | None \<Rightarrow> Some (Inl OutOfMemory))"
proof -
  from inv have sinv: "structInv pf st us fs"
    and cnt: "mNbTimesAllocateMethodCalled st = int (nAlloc (attrs (memory st)) us)"
    by (simp_all add: heapInv_def)
  from s have pos: "0 < max s (INIT_ALLOCATED_SIZE pf)" by simp
  from reserve_inv [OF sinv fresh pos]
  obtain st1 where st1: "reserve pf (Some b) st s = Some (Inr st1)"
    "structInv pf st1 (us @ [b]) (b # fs)"
    "nAlloc (attrs (memory st1)) (us @ [b]) = nAlloc (attrs (memory st)) us"
    "mNbTimesAllocateMethodCalled st1 = mNbTimesAllocateMethodCalled st"
    by blast
  with cnt have inv1: "heapInv pf st1 (us @ [b]) (b # fs)"
    by (simp add: heapInv_def)
  have "allocate pf (Some b) st s =
               (case find (\<lambda>a. fits pf s a (the (memory st1 a))) (b # fs) of
                  Some a \<Rightarrow> Some (allocateUnit pf st1 a s)
                | None \<Rightarrow> Some (Inl OutOfMemory))"
    using s f st1(1)
    by (simp add: allocate_def allocate_search [OF inv] allocate_search [OF inv1]
        split: option.splits)
  with st1(1,4) inv1 show ?thesis by blast
qed

lemma allocate_inv:
  assumes inv: "heapInv pf st us fs" and fresh: "blockFresh pf st blk s"
    and res: "allocate pf blk st s = Some (Inr (p, st'))"
  shows "\<exists>us' fs'. heapInv pf st' us' fs'
           \<and> mNbTimesAllocateMethodCalled st' = mNbTimesAllocateMethodCalled st + 1"
proof -
  from res have s: "0 < s" by (auto simp: allocate_def split: if_splits)
  show ?thesis
  proof (cases "find (\<lambda>a. fits pf s a (the (memory st a))) fs")
    case (Some a)
    from allocate_fit [OF inv s Some, of blk] res show ?thesis by auto
  next
    case None
    show ?thesis
    proof (cases blk)
      case None
      with res s \<open>find _ fs = None\<close> show ?thesis
        by (simp add: allocate_def allocate_search [OF inv] reserve_def)
    next
      case (Some b)
      from allocate_grow [OF inv s None fresh [unfolded Some]]
      obtain st1 where st1: "heapInv pf st1 (us @ [b]) (b # fs)"
        "allocate pf (Some b) st s =
               (case find (\<lambda>a. fits pf s a (the (memory st1 a))) (b # fs) of
                  Some a \<Rightarrow> Some (allocateUnit pf st1 a s)
                | None \<Rightarrow> Some (Inl OutOfMemory))"
        "mNbTimesAllocateMethodCalled st1 = mNbTimesAllocateMethodCalled st"
        by blast
      show ?thesis
      proof (cases "find (\<lambda>a. fits pf s a (the (memory st1 a))) (b # fs)")
        case None
        with st1(2) res Some show ?thesis by simp
      next
        case (Some a)
        from allocate_fit [OF st1(1) s Some, of None] st1(2,3) res Some \<open>blk = Some b\<close>
        show ?thesis
          by (auto simp: allocate_def allocate_search [OF st1(1)] s)
      qed
    qed
  qed
qed

subsection \<open>\<open>release\<close> preserves the invariant\<close>

lemma dlseg_links:
  assumes "dlseg (unitLinks m) None h (as @ a # bs) None" "m a = Some u"
  shows "previousUnit u = lastp None as"
    and "nextUnit u = (case bs of [] \<Rightarrow> None | z # _ \<Rightarrow> Some z)"
  using assms by (auto simp: dlseg_append unitLinks_def split: option.splits list.splits)

lemma freeUnit_inv:
  assumes inv: "structInv pf st us fs" and u: "memory st a = Some u" and al: "isAllocated u"
  shows "\<exists>st1 st2 u2. modifyUnit st a (\<lambda>v. v\<lparr>isAllocated := False\<rparr>) = Inr st1
           \<and> addToFreeUnits st1 a = Inr st2
           \<and> structInv pf st2 us (a # fs)
           \<and> memory st2 a = Some u2 \<and> \<not> isAllocated u2
           \<and> int (nAlloc (attrs (memory st2)) us) = int (nAlloc (attrs (memory st)) us) - 1
           \<and> mNbTimesAllocateMethodCalled st2 = mNbTimesAllocateMethodCalled st"
proof -
  let ?hs = "headerSize pf"
  let ?A = "attrs (memory st)"
  from inv have ul: "dlseg (unitLinks (memory st)) None (mMemoryUnits st) us None"
    and fl: "dlseg (freeLinks (memory st)) None (mFreeUnits st) fs None"
    and g: "geomInv ?hs ?A us" and fo: "flagsOK ?A us fs"
    and tot: "totalOf ?hs ?A us = mAllocatedMemory st"
    by (auto simp: structInv_def)
  from g have dist: "distinct us" by (simp add: geomInv_def)
  from structInv_dom [OF inv] u have ain: "a \<in> set us" by auto
  from u have oa: "szOf ?A a = size_unit u" "contigOf ?A a = isNextContiguousMemory u"
    "allocOf ?A a = isAllocated u" by (simp_all add: Of_attrs)
  from structInv_free [OF inv u] al have nf: "a \<notin> set fs" by simp
  from setFlag_lists [OF u, of False]
  obtain st1 where st1: "modifyUnit st a (\<lambda>v. v\<lparr>isAllocated := False\<rparr>) = Inr st1"
    "unitLinks (memory st1) = unitLinks (memory st)"
    "freeLinks (memory st1) = freeLinks (memory st)"
    "attrs (memory st1) = ?A(a \<mapsto> (size_unit u, isNextContiguousMemory u, False))"
    "mMemoryUnits st1 = mMemoryUnits st" "mFreeUnits st1 = mFreeUnits st"
    "mAllocatedMemory st1 = mAllocatedMemory st"
    "mNbTimesAllocateMethodCalled st1 = mNbTimesAllocateMethodCalled st"
    by blast
  have "attrs (memory st1) a = Some (size_unit u, isNextContiguousMemory u, False)"
    by (simp add: st1(4))
  then obtain u1 where u1: "memory st1 a = Some u1" by (auto dest: attrs_SomeD)
  from fl have fl1: "dlseg (freeLinks (memory st1)) None (mFreeUnits st1) fs None"
    by (simp add: st1)
  from addToFreeUnits_list [OF fl1 u1 nf]
  obtain st2 where st2: "addToFreeUnits st1 a = Inr st2"
    "dlseg (freeLinks (memory st2)) None (mFreeUnits st2) (a # fs) None"
    "unitLinks (memory st2) = unitLinks (memory st1)"
    "attrs (memory st2) = attrs (memory st1)"
    "mMemoryUnits st2 = mMemoryUnits st1" "mAllocatedMemory st2 = mAllocatedMemory st1"
    "mNbTimesAllocateMethodCalled st2 = mNbTimesAllocateMethodCalled st1"
    by blast
  have at2: "attrs (memory st2) = ?A(a \<mapsto> (size_unit u, isNextContiguousMemory u, False))"
    by (simp add: st2(4) st1(4))
  then have "attrs (memory st2) a = Some (size_unit u, isNextContiguousMemory u, False)"
    by simp
  then obtain u2 where u2: "memory st2 a = Some u2" "\<not> isAllocated u2"
    by (auto dest: attrs_SomeD)
  have g2: "geomInv ?hs (attrs (memory st2)) us"
    using geomInv_flag [OF g ain, of False] by (simp add: at2 oa)
  have fo2: "flagsOK (attrs (memory st2)) us (a # fs)"
    unfolding flagsOK_def
  proof
    fix x
    from fo have "x \<in> set fs \<longleftrightarrow> x \<in> set us \<and> \<not> allocOf ?A x"
      by (simp add: flagsOK_def)
    with nf ain show "x \<in> set (a # fs) \<longleftrightarrow> x \<in> set us \<and> \<not> allocOf (attrs (memory st2)) x"
      by (cases "x = a") (auto simp: at2)
  qed
  have tot2: "totalOf ?hs (attrs (memory st2)) us = mAllocatedMemory st2"
    using totalOf_flag [OF dist ain, of ?hs ?A] tot by (simp add: at2 oa st2 st1)
  have na2: "int (nAlloc (attrs (memory st2)) us) = int (nAlloc ?A us) - 1"
    using nAlloc_flag [OF dist ain, of ?A _ _ False] al by (simp add: at2 oa)
  from st1 st2 g2 fo2 tot2 na2 u2 ul show ?thesis
    unfolding structInv_def by auto
qed

lemma mergeWithPrevious_inv:
  assumes inv: "structInv pf st us fs" and u: "memory st a = Some u" and free: "\<not> isAllocated u"
  shows "\<exists>c st' us' fs' uc. mergeWithPrevious pf st a = Inr (c, st')
           \<and> structInv pf st' us' fs'
           \<and> memory st' c = Some uc \<and> \<not> isAllocated uc
           \<and> nAlloc (attrs (memory st')) us' = nAlloc (attrs (memory st)) us
           \<and> mNbTimesAllocateMethodCalled st' = mNbTimesAllocateMethodCalled st"
proof -
  from inv have ul: "dlseg (unitLinks (memory st)) None (mMemoryUnits st) us None"
    by (simp add: structInv_def)
  from structInv_dom [OF inv] u have "a \<in> set us" by auto
  then obtain as bs where us: "us = as @ a # bs" by (auto dest: split_list)
  from dlseg_links(1) [OF ul [unfolded us] u] have pu: "previousUnit u = lastp None as" .
  show ?thesis
  proof (cases as rule: rev_cases)
    case Nil
    with pu u inv free show ?thesis
      by (auto simp: mergeWithPrevious_def)
  next
    case (snoc as' p)
    with pu have pp: "previousUnit u = Some p" by simp
    from structInv_dom [OF inv] us snoc obtain v where v: "memory st p = Some v" by auto
    show ?thesis
    proof (cases "\<not> isAllocated v \<and> isNextContiguousMemory v")
      case False
      with pp u v inv free show ?thesis
        by (auto simp: mergeWithPrevious_def)
    next
      case True
      from inv us snoc have inv': "structInv pf st (as' @ p # a # bs) fs" by simp
      from mergeUnits_inv [OF inv' v u _ free] True
      obtain st' where st': "mergeUnits pf st p a = Inr st'"
        "structInv pf st' (as' @ p # bs) (remove1 a fs)"
        "attrs (memory st') = (attrs (memory st))
                (p \<mapsto> (size_unit v + (headerSize pf + size_unit u), isNextContiguousMemory u, False),
                 a := None)"
        "nAlloc (attrs (memory st')) (as' @ p # bs) = nAlloc (attrs (memory st)) (as' @ p # a # bs)"
        "mNbTimesAllocateMethodCalled st' = mNbTimesAllocateMethodCalled st"
        by auto
      from structInv_distinct [OF inv'] have "p \<noteq> a" by auto
      with st'(3) have "attrs (memory st') p =
          Some (size_unit v + (headerSize pf + size_unit u), isNextContiguousMemory u, False)"
        by simp
      then obtain uc where "memory st' p = Some uc" "\<not> isAllocated uc"
        by (auto dest: attrs_SomeD)
      with st' True pp u v us snoc show ?thesis
        by (auto simp: mergeWithPrevious_def)
    qed
  qed
qed

lemma mergeWithNext_inv:
  assumes inv: "structInv pf st us fs" and u: "memory st a = Some u" and free: "\<not> isAllocated u"
  shows "\<exists>st' us' fs'. mergeWithNext pf st a = Inr st'
           \<and> structInv pf st' us' fs'
           \<and> nAlloc (attrs (memory st')) us' = nAlloc (attrs (memory st)) us
           \<and> mNbTimesAllocateMethodCalled st' = mNbTimesAllocateMethodCalled st"
proof -
  from inv have ul: "dlseg (unitLinks (memory st)) None (mMemoryUnits st) us None"
    by (simp add: structInv_def)
  from structInv_dom [OF inv] u have "a \<in> set us" by auto
  then obtain as bs where us: "us = as @ a # bs" by (auto dest: split_list)
  from dlseg_links(2) [OF ul [unfolded us] u]
  have nu: "nextUnit u = (case bs of [] \<Rightarrow> None | z # _ \<Rightarrow> Some z)" .
  show ?thesis
  proof (cases bs)
    case Nil
    with nu u inv show ?thesis
      by (auto simp: mergeWithNext_def)
  next
    case (Cons z bs')
    with nu have nn: "nextUnit u = Some z" by simp
    from structInv_dom [OF inv] us Cons obtain v where v: "memory st z = Some v" by auto
    show ?thesis
    proof (cases "\<not> isAllocated v \<and> isNextContiguousMemory u")
      case False
      with nn u v inv show ?thesis
        by (auto simp: mergeWithNext_def)
    next
      case True
      from inv us Cons have inv': "structInv pf st (as @ a # z # bs') fs" by simp
      from mergeUnits_inv [OF inv' u v free] True
      obtain st' where st': "mergeUnits pf st a z = Inr st'"
        "structInv pf st' (as @ a # bs') (remove1 z fs)"
        "nAlloc (attrs (memory st')) (as @ a # bs') = nAlloc (attrs (memory st)) (as @ a # z # bs')"
        "mNbTimesAllocateMethodCalled st' = mNbTimesAllocateMethodCalled st"
        by auto
      with True nn u v us Cons show ?thesis
        by (auto simp: mergeWithNext_def)
    qed
  qed
qed

lemma release_inv:
  assumes inv: "heapInv pf st us fs" and p: "headerSize pf \<le> pointer"
    and u: "memory st (pointer - headerSize pf) = Some u" and al: "isAllocated u"
    and sz: "size_unit u = s"
  shows "\<exists>st' us' fs'. release pf st pointer s = Inr st' \<and> heapInv pf st' us' fs'
           \<and> mNbTimesAllocateMethodCalled st' = mNbTimesAllocateMethodCalled st - 1"
proof -
  let ?a = "pointer - headerSize pf"
  from inv have sinv: "structInv pf st us fs"
    and cnt: "mNbTimesAllocateMethodCalled st = int (nAlloc (attrs (memory st)) us)"
    by (simp_all add: heapInv_def)
  from freeUnit_inv [OF sinv u al]
  obtain st1 st2 u2 where a: "modifyUnit st ?a (\<lambda>v. v\<lparr>isAllocated := False\<rparr>) = Inr st1"
    "addToFreeUnits st1 ?a = Inr st2" "structInv pf st2 us (?a # fs)"
    "memory st2 ?a = Some u2" "\<not> isAllocated u2"
    "int (nAlloc (attrs (memory st2)) us) = int (nAlloc (attrs (memory st)) us) - 1"
    "mNbTimesAllocateMethodCalled st2 = mNbTimesAllocateMethodCalled st"
    by blast
  from mergeWithPrevious_inv [OF a(3,4,5)]
  obtain c st3 us3 fs3 uc where b: "mergeWithPrevious pf st2 ?a = Inr (c, st3)"
    "structInv pf st3 us3 fs3" "memory st3 c = Some uc" "\<not> isAllocated uc"
    "nAlloc (attrs (memory st3)) us3 = nAlloc (attrs (memory st2)) us"
    "mNbTimesAllocateMethodCalled st3 = mNbTimesAllocateMethodCalled st2"
    by blast
  from mergeWithNext_inv [OF b(2,3,4)]
  obtain st4 us4 fs4 where c: "mergeWithNext pf st3 c = Inr st4"
    "structInv pf st4 us4 fs4"
    "nAlloc (attrs (memory st4)) us4 = nAlloc (attrs (memory st3)) us3"
    "mNbTimesAllocateMethodCalled st4 = mNbTimesAllocateMethodCalled st3"
    by blast
  let ?st' = "st4\<lparr>mNbTimesAllocateMethodCalled := mNbTimesAllocateMethodCalled st4 - 1\<rparr>"
  have "release pf st pointer s = Inr ?st'"
    using p u sz a(1,2) b(1) c(1) by (simp add: release_def Let_def)
  moreover have "heapInv pf ?st' us4 fs4"
    using a b c cnt by (simp add: heapInv_def)
  moreover have "mNbTimesAllocateMethodCalled ?st' = mNbTimesAllocateMethodCalled st - 1"
    using a b c by simp
  ultimately show ?thesis by blast
qed

subsection \<open>Every reachable state satisfies the invariant\<close>

lemma heapInv_lists:
  assumes "heapInv pf st us fs"
  shows "memoryUnits st = Some us" and "freeUnits st = Some fs"
proof -
  from assms have ul: "dlseg (unitLinks (memory st)) None (mMemoryUnits st) us None"
    and fl: "dlseg (freeLinks (memory st)) None (mFreeUnits st) fs None"
    by (simp_all add: heapInv_def structInv_def)
  have 1: "(\<lambda>a. map_option snd (unitLinks (memory st) a)) = (\<lambda>a. map_option nextUnit (memory st a))"
    by (auto simp: unitLinks_def option.map_comp comp_def)
  have 2: "(\<lambda>a. map_option snd (freeLinks (memory st) a)) = (\<lambda>a. map_option nextFreeUnit (memory st a))"
    by (auto simp: freeLinks_def option.map_comp comp_def)
  from listFrom_dlseg [OF ul] show "memoryUnits st = Some us"
    by (simp add: memoryUnits_def 1)
  from listFrom_dlseg [OF fl] show "freeUnits st = Some fs"
    by (simp add: freeUnits_def 2)
qed

lemma heapInv_empty:
  "heapInv pf \<lparr> mAllocatedMemory = 0, mMemoryUnits = None, mFreeUnits = None,
                 mNbTimesAllocateMethodCalled = 0, memory = (\<lambda>_. None) \<rparr> [] []"
  by (simp add: heapInv_def structInv_def geomInv_def flagsOK_def attrs_def)

lemma reserve_heapInv:
  assumes inv: "heapInv pf st us fs" and fresh: "blockFresh pf st blk n"
    and res: "reserve pf blk st n = Some (Inr st')"
  shows "\<exists>us' fs'. heapInv pf st' us' fs'"
proof -
  from inv have sinv: "structInv pf st us fs"
    and cnt: "mNbTimesAllocateMethodCalled st = int (nAlloc (attrs (memory st)) us)"
    by (simp_all add: heapInv_def)
  from res obtain b where b: "blk = Some b"
    by (cases blk) (auto simp: reserve_def)
  have pos: "0 < max n (INIT_ALLOCATED_SIZE pf)"
  proof (rule ccontr)
    assume "\<not> 0 < max n (INIT_ALLOCATED_SIZE pf)"
    with res b show False
      by (auto simp: reserve_def MemoryUnitHeader_ctor_def Let_def split: option.splits sum.splits)
  qed
  from reserve_inv [OF sinv fresh [unfolded b] pos] res b cnt show ?thesis
    by (auto simp: heapInv_def)
qed

lemma ctor_heapInv:
  assumes "HeapAllocator_ctor pf blk n = Some (Inr st)"
  shows "\<exists>us fs. heapInv pf st us fs"
proof (cases "n = 0")
  case True
  with assms heapInv_empty [of pf] show ?thesis
    by (auto simp: HeapAllocator_ctor_def)
next
  case False
  let ?e = "\<lparr> mAllocatedMemory = 0, mMemoryUnits = None, mFreeUnits = None,
                 mNbTimesAllocateMethodCalled = 0, memory = (\<lambda>_. None) \<rparr>"
  from False assms have "reserve pf blk ?e n = Some (Inr st)"
    by (simp add: HeapAllocator_ctor_def)
  moreover have "blockFresh pf ?e blk n" by (simp add: blockFresh_def)
  ultimately show ?thesis
    using reserve_heapInv [OF heapInv_empty] by blast
qed

lemma split_heapInv:
  assumes inv: "heapInv pf st us fs" and s: "0 < s"
    and res: "splitMemoryUnit pf st a s = Inr st'"
  shows "\<exists>us' fs'. heapInv pf st' us' fs'"
proof -
  from inv have sinv: "structInv pf st us fs"
    and cnt: "mNbTimesAllocateMethodCalled st = int (nAlloc (attrs (memory st)) us)"
    by (simp_all add: heapInv_def)
  from res obtain u where u: "memory st a = Some u"
    by (auto simp: splitMemoryUnit_def split: option.splits)
  have "s + headerSize pf < size_unit u"
  proof (rule ccontr)
    assume "\<not> s + headerSize pf < size_unit u"
    with res u show False
      by (simp add: splitMemoryUnit_def MemoryUnitHeader_ctor_def Let_def)
  qed
  from splitMemoryUnit_inv [OF sinv u s this] res cnt show ?thesis
    by (auto simp: heapInv_def)
qed

lemma merge_heapInv:
  assumes inv: "heapInv pf st us fs" and res: "mergeUnits pf st a b = Inr st'"
  shows "\<exists>us' fs'. heapInv pf st' us' fs'"
proof -
  from inv have sinv: "structInv pf st us fs"
    and cnt: "mNbTimesAllocateMethodCalled st = int (nAlloc (attrs (memory st)) us)"
    by (simp_all add: heapInv_def)
  from res obtain u1 u2 where u: "memory st a = Some u1" "memory st b = Some u2"
    "\<not> isAllocated u1" "\<not> isAllocated u2" "nextUnit u1 = Some b" "isNextContiguousMemory u1"
    by (auto simp: mergeUnits_def split: option.splits if_splits)
  from sinv have ul: "dlseg (unitLinks (memory st)) None (mMemoryUnits st) us None"
    by (simp add: structInv_def)
  from structInv_dom [OF sinv] u(1) have "a \<in> set us" by auto
  then obtain as bs0 where us: "us = as @ a # bs0" by (auto dest: split_list)
  from dlseg_links(2) [OF ul [unfolded us] u(1)] u(5) obtain bs where "bs0 = b # bs"
    by (cases bs0) auto
  with sinv us have "structInv pf st (as @ a # b # bs) fs" by simp
  from mergeUnits_inv [OF this u(1,2,3,4,6)] res cnt us \<open>bs0 = b # bs\<close> show ?thesis
    by (auto simp: heapInv_def)
qed

lemma release_heapInv:
  assumes inv: "heapInv pf st us fs" and out: "outstanding pf st p"
    and res: "release pf st p s = Inr st'"
  shows "\<exists>us' fs'. heapInv pf st' us' fs'
           \<and> mNbTimesAllocateMethodCalled st' = mNbTimesAllocateMethodCalled st - 1"
proof -
  from out obtain u where u: "headerSize pf \<le> p" "memory st (p - headerSize pf) = Some u"
    "isAllocated u"
    by (auto simp: outstanding_def split: option.splits)
  have "size_unit u = s"
  proof (rule ccontr)
    assume "size_unit u \<noteq> s"
    with res u show False by (simp add: release_def Let_def)
  qed
  from release_inv [OF inv u this] obtain st2 us' fs' where
    "release pf st p s = Inr st2" "heapInv pf st2 us' fs'"
    "mNbTimesAllocateMethodCalled st2 = mNbTimesAllocateMethodCalled st - 1"
    by blast
  with res show ?thesis by auto
qed

lemma reachable_heapInv: "reachable pf st \<Longrightarrow> \<exists>us fs. heapInv pf st us fs"
proof (induction rule: reachable.induct)
  case (construct blk n st)
  then show ?case by (rule ctor_heapInv)
next
  case (allocate st blk s p st')
  from allocate.IH obtain us fs where "heapInv pf st us fs" by blast
  from allocate_inv [OF this allocate.hyps(2,3)] show ?case by blast
next
  case (release st p s st')
  from release.IH obtain us fs where "heapInv pf st us fs" by blast
  from release_heapInv [OF this release.hyps(2,3)] show ?case by blast
next
  case (reserve st blk n st')
  from reserve.IH obtain us fs where "heapInv pf st us fs" by blast
  from reserve_heapInv [OF this reserve.hyps(2,3)] show ?case .
next
  case (split st s a st')
  from split.IH obtain us fs where "heapInv pf st us fs" by blast
  from split_heapInv [OF this split.hyps(2,3)] show ?case .
next
  case (merge st a b st')
  from merge.IH obtain us fs where "heapInv pf st us fs" by blast
  from merge_heapInv [OF this merge.hyps(2)] show ?case .
qed

subsection \<open>Consequences of the invariant\<close>






subsection \<open>The first fitting unit\<close>





lemma reachable_inv_lists:
  assumes "reachable pf st"
  shows "\<exists>us fs. heapInv pf st us fs \<and> memoryUnits st = Some us \<and> freeUnits st = Some fs"
  using reachable_heapInv [OF assms] heapInv_lists by blast

subsection \<open>Evaluation of the operations on given states\<close>

lemmas heap_eval = HeapAllocator_ctor_def reserve_def allocate_def allocateUnit_def release_def
  mergeWithPrevious_def mergeWithNext_def mergeUnits_def splitMemoryUnit_def
  addToFreeUnits_def removeFromFreeUnits_def modifyUnit_def modifyUnitOpt_def
  MemoryUnitHeader_ctor_def fits_def alignmentPadding_def
  Let_def findFirstFit.simps lastUnit.simps

lemmas example_eval = examplePlatform_def computeAlignedAddress_def oneUnit_def exampleInit_def
  exampleRemoved_def exampleSplit_def exampleA_def exampleAB_def exampleAB_A_def





subsection \<open>The example run\<close>

lemma example_ctor:
  "HeapAllocator_ctor examplePlatform (Some 0) 1000 = Some (Inr exampleInit)"
  by (simp add: heap_eval example_eval)

lemma example_reachable_init: "reachable examplePlatform exampleInit"
  by (rule reachable.construct [OF example_ctor])






lemma example_split:
  "splitMemoryUnit examplePlatform exampleInit 0 32 = Inr exampleSplit"
  by (simp add: heap_eval example_eval)



section \<open>Properties of the heap allocator\<close>





text \<open>
  Claim C3 (merge). Let \<open>st\<close> be a reachable state with units \<open>u1\<close> at \<open>a\<close> and \<open>u2\<close> at
  \<open>b\<close>, both free, \<open>b\<close> the successor of \<open>a\<close>, and \<open>a\<close> contiguous with its successor.
  Then \<open>mergeUnits(a, b)\<close> succeeds; afterwards the size of \<open>a\<close> has grown by
  \<open>headerSize + size u2\<close>, the successor of \<open>a\<close> is the former successor of \<open>b\<close>, whose back
  link points to \<open>a\<close>, the contiguity flag of \<open>a\<close> is the former flag of \<open>b\<close>, and \<open>b\<close>,
  which was in the Free List, is no longer in it.
\<close>

theorem mergeUnits_effect:
  assumes r: "reachable pf st"
    and u1: "memory st a = Some u1" and u2: "memory st b = Some u2"
    and free: "\<not> isAllocated u1" "\<not> isAllocated u2"
    and nx: "nextUnit u1 = Some b" and contig: "isNextContiguousMemory u1"
    and fl: "freeUnits st = Some fs"
  shows "\<exists>st' u1'.
           mergeUnits pf st a b = Inr st'
           \<and> memory st' a = Some u1'
           \<and> size_unit u1' = size_unit u1 + (headerSize pf + size_unit u2)
           \<and> nextUnit u1' = nextUnit u2
           \<and> (case nextUnit u2 of
                 None \<Rightarrow> True
               | Some n \<Rightarrow> (case memory st' n of None \<Rightarrow> False
                            | Some v \<Rightarrow> previousUnit v = Some a))
           \<and> isNextContiguousMemory u1' = isNextContiguousMemory u2
           \<and> b \<in> set fs
           \<and> freeUnits st' = Some (remove1 b fs) \<and> b \<notin> set (remove1 b fs)"
proof -
  from reachable_inv_lists [OF r] fl obtain us where inv: "heapInv pf st us fs" by auto
  then have sinv: "structInv pf st us fs"
    and cnt: "mNbTimesAllocateMethodCalled st = int (nAlloc (attrs (memory st)) us)"
    by (simp_all add: heapInv_def)
  from sinv have ul: "dlseg (unitLinks (memory st)) None (mMemoryUnits st) us None"
    by (simp add: structInv_def)
  from structInv_dom [OF sinv] u1 have "a \<in> set us" by auto
  then obtain as bs0 where us0: "us = as @ a # bs0" by (auto dest: split_list)
  from dlseg_links(2) [OF ul [unfolded us0] u1] nx obtain bs where bs0: "bs0 = b # bs"
    by (cases bs0) auto
  with us0 have us: "us = (as @ [a]) @ b # bs" by simp
  from dlseg_links(2) [OF ul [unfolded us] u2]
  have n2: "nextUnit u2 = (case bs of [] \<Rightarrow> None | z # _ \<Rightarrow> Some z)" .
  from sinv us0 bs0 have sinv0: "structInv pf st (as @ a # b # bs) fs" by simp
  from mergeUnits_inv [OF sinv0 u1 u2 free contig]
  obtain st' where st': "mergeUnits pf st a b = Inr st'"
    "structInv pf st' (as @ a # bs) (remove1 b fs)"
    "attrs (memory st') = (attrs (memory st))
                (a \<mapsto> (size_unit u1 + (headerSize pf + size_unit u2), isNextContiguousMemory u2, False),
                 b := None)"
    "nAlloc (attrs (memory st')) (as @ a # bs) = nAlloc (attrs (memory st)) (as @ a # b # bs)"
    "mNbTimesAllocateMethodCalled st' = mNbTimesAllocateMethodCalled st"
    by blast
  with cnt us0 bs0 have inv': "heapInv pf st' (as @ a # bs) (remove1 b fs)"
    by (simp add: heapInv_def)
  from structInv_distinct [OF sinv0] have ne: "a \<noteq> b" by auto
  with st'(3) have "attrs (memory st') a =
      Some (size_unit u1 + (headerSize pf + size_unit u2), isNextContiguousMemory u2, False)"
    by simp
  then obtain u1' where u1': "memory st' a = Some u1'"
    "size_unit u1' = size_unit u1 + (headerSize pf + size_unit u2)"
    "isNextContiguousMemory u1' = isNextContiguousMemory u2"
    by (auto dest!: attrs_SomeD)
  from st'(2) have ul': "dlseg (unitLinks (memory st')) None (mMemoryUnits st') (as @ a # bs) None"
    by (simp add: structInv_def)
  from dlseg_links(2) [OF ul' u1'(1)] n2 have n1: "nextUnit u1' = nextUnit u2" by simp
  have blink: "case nextUnit u2 of None \<Rightarrow> True
               | Some n \<Rightarrow> (case memory st' n of None \<Rightarrow> False
                            | Some v \<Rightarrow> previousUnit v = Some a)"
  proof (cases bs)
    case Nil
    with n2 show ?thesis by simp
  next
    case (Cons z bs')
    from structInv_dom [OF st'(2)] Cons obtain v where v: "memory st' z = Some v" by auto
    from ul' Cons have "dlseg (unitLinks (memory st')) None (mMemoryUnits st') ((as @ [a]) @ z # bs') None"
      by simp
    from dlseg_links(1) [OF this v] have "previousUnit v = Some a" by simp
    with n2 Cons v show ?thesis by simp
  qed
  from structInv_free [OF sinv u2] free have bin: "b \<in> set fs" by simp
  from structInv_distinct [OF sinv] have "b \<notin> set (remove1 b fs)" by simp
  with st'(1) u1' n1 blink bin heapInv_lists(2) [OF inv'] show ?thesis by blast
qed

theorem mergeUnits_effect_witness:
  "reachable examplePlatform exampleSplit
   \<and> map_option isAllocated (memory exampleSplit 0) = Some False
   \<and> map_option isAllocated (memory exampleSplit 80) = Some False
   \<and> map_option nextUnit (memory exampleSplit 0) = Some (Some 80)
   \<and> map_option isNextContiguousMemory (memory exampleSplit 0) = Some True
   \<and> freeUnits exampleSplit = Some [80, 0]
   \<and> mergeUnits examplePlatform exampleSplit 0 80 = Inr exampleInit
   \<and> (\<exists>st' u1'.
           mergeUnits examplePlatform exampleSplit 0 80 = Inr st'
           \<and> memory st' 0 = Some u1'
           \<and> size_unit u1' = 32 + (headerSize examplePlatform + 920)
           \<and> nextUnit u1' = None
           \<and> isNextContiguousMemory u1' = False
           \<and> freeUnits st' = Some [0])"
proof -
  let ?u1 = "\<lparr> previousUnit = None, nextUnit = Some 80,
                          previousFreeUnit = Some 80, nextFreeUnit = None,
                          size_unit = 32, isNextContiguousMemory = True,
                          isAllocated = False \<rparr>"
  let ?u2 = "\<lparr> previousUnit = Some 0, nextUnit = None,
                           previousFreeUnit = None, nextFreeUnit = Some 0,
                           size_unit = 920, isNextContiguousMemory = False,
                           isAllocated = False \<rparr>"
  have r: "reachable examplePlatform exampleSplit"
    by (rule reachable.split [OF example_reachable_init _ example_split]) simp
  have u1: "memory exampleSplit 0 = Some ?u1" and u2: "memory exampleSplit 80 = Some ?u2"
    by (simp_all add: example_eval)
  have fl: "freeUnits exampleSplit = Some [80, 0]"
    by (simp add: freeUnits_def listFrom.simps example_eval)
  have m: "mergeUnits examplePlatform exampleSplit 0 80 = Inr exampleInit"
    by (simp add: heap_eval example_eval)
  from mergeUnits_effect [OF r u1 u2 _ _ _ _ fl]
  have "\<exists>st' u1'.
           mergeUnits examplePlatform exampleSplit 0 80 = Inr st'
           \<and> memory st' 0 = Some u1'
           \<and> size_unit u1' = 32 + (headerSize examplePlatform + 920)
           \<and> nextUnit u1' = None
           \<and> isNextContiguousMemory u1' = False
           \<and> freeUnits st' = Some [0]"
    by simp
  with r u1 u2 fl m show ?thesis by simp
qed







text \<open>
  Claim C6. \<open>allocate(0)\<close> fails with \<open>InvalidArgument\<close>, in every state and whatever the Base
  Allocator would answer: no pointer is returned and the state is not changed. (The size is
  a \<open>size_t\<close>, so zero is the only size that is not positive.)
\<close>

theorem allocate_zero_invalid_argument:
  "allocate pf blk st 0 = Some (Inl InvalidArgument)"
  by (simp add: allocate_def)




section \<open>Properties of the unit header\<close>

text \<open>
  Claim C10. Every header the constructor builds has \<open>isAllocated = false\<close>, whatever the
  six constructor arguments are: no argument reaches the field.
\<close>

theorem MemoryUnitHeader_ctor_not_allocated:
  "MemoryUnitHeader_ctor debug sz prevU nextU prevF nextF contig = Inr u \<Longrightarrow> \<not> isAllocated u"
  by (auto simp add: MemoryUnitHeader_ctor_def split: if_splits)

theorem MemoryUnitHeader_ctor_not_allocated_witness:
  "\<exists>u. MemoryUnitHeader_ctor True 32 (Some 0) None None (Some 80) True = Inr u
       \<and> \<not> isAllocated u"
  using MemoryUnitHeader_ctor_not_allocated [of True 32 "Some 0" None None "Some 80" True]
  by (simp add: MemoryUnitHeader_ctor_def)


section \<open>Properties of the dispatch\<close>

text \<open>
  Claim C8. Whenever \<open>type1 > type2\<close>, \<open>selectAlgorithm(type1, type2)\<close> returns the null
  pointer, whatever the ordinal of \<open>SPHERE\<close> and whatever \<open>isConvex\<close> says about the shapes.
\<close>

theorem selectAlgorithm_reversed_none:
  "type1 > type2 \<Longrightarrow> selectAlgorithm SPHERE isConvex type1 type2 = None"
  by (simp add: selectAlgorithm_def)

theorem selectAlgorithm_reversed_none_witness:
  "(6::int) > 2 \<and> selectAlgorithm 2 (\<lambda>t. t \<noteq> 7) 6 2 = None"
  using selectAlgorithm_reversed_none [of 2 6 2 "\<lambda>t. t \<noteq> 7"] by simp

text \<open>
  Claim C9. \<open>selectAlgorithm(SPHERE, SPHERE)\<close> is the sphere-vs-sphere algorithm;
  \<open>selectAlgorithm(SPHERE, t)\<close> for a convex type \<open>t\<close> with \<open>SPHERE \<le> t\<close> other than
  \<open>SPHERE\<close> itself (that pair is the first case) is the sphere-vs-convex algorithm; every
  pair that is neither of these returns the null pointer.
\<close>

theorem selectAlgorithm_table:
  "selectAlgorithm SPHERE isConvex SPHERE SPHERE = Some SphereVsSphereAlgorithm
   \<and> (isConvex t \<and> SPHERE \<le> t \<and> t \<noteq> SPHERE \<longrightarrow>
        selectAlgorithm SPHERE isConvex SPHERE t = Some SphereVsConvexMeshAlgorithm)
   \<and> (\<not> (type1 = SPHERE \<and> type2 = SPHERE) \<and> \<not> (type1 = SPHERE \<and> isConvex type2 \<and> SPHERE \<le> type2)
        \<longrightarrow> selectAlgorithm SPHERE isConvex type1 type2 = None)"
  by (auto simp add: selectAlgorithm_def)

theorem selectAlgorithm_table_witness:
  "selectAlgorithm 2 (\<lambda>t. t \<noteq> 7) 2 2 = Some SphereVsSphereAlgorithm
   \<and> selectAlgorithm 2 (\<lambda>t. t \<noteq> 7) 2 6 = Some SphereVsConvexMeshAlgorithm
   \<and> selectAlgorithm 2 (\<lambda>t. t \<noteq> 7) 6 2 = None
   \<and> selectAlgorithm 2 (\<lambda>t. t \<noteq> 7) 2 7 = None"
  using selectAlgorithm_table [of 2 "\<lambda>t. t \<noteq> 7" 6 6 2]
    selectAlgorithm_table [of 2 "\<lambda>t. t \<noteq> 7" 6 2 7]
  by simp

end
